theory Spec2Isabelle
  imports Complex_Main "HOL-Library.Word"
begin

section \<open>Conventions\<close>

text \<open>
  The renderer computes on floating-point tensors. The embedding keeps the shape of the
  computation and replaces floating-point arithmetic by exact arithmetic on \<^typ>\<open>real\<close>:
  rounding, NaN and overflow are not modelled. A tensor's last dimension is a list; the
  leading (batch) dimensions are handled by mapping the per-item function over the batch.
  Every exception the Python can raise inside the modelled part is the \<open>Inl\<close> branch of
  a sum type.
\<close>

datatype error = AssertionError | IndexError | KeyError | RuntimeError | ZeroDivisionError

definition item :: "'a list \<Rightarrow> nat \<Rightarrow> error + 'a" where
  \<comment> \<open>\<open>xs[k]\<close> for a non-negative literal index \<open>k\<close>\<close>
  "item xs k = (if k < length xs then Inr (xs ! k) else Inl IndexError)"

section \<open>spherical\_harmonics.py\<close>

definition C0 :: real where
  "C0 = 0.28209479177387814"

definition C1 :: real where
  "C1 = 0.4886025119029199"

definition C2 :: "real list" where
  "C2 = [1.0925484305920792, - 1.0925484305920792, 0.31539156525252005,
         - 1.0925484305920792, 0.5462742152960396]"

definition C3 :: "real list" where
  "C3 = [- 0.5900435899266435, 2.890611442640554, - 0.4570457994644658,
         0.3731763325901154, - 0.4570457994644658, 1.445305721320277,
         - 0.5900435899266435]"

definition C4 :: "real list" where
  "C4 = [2.5033429417967046, - 1.7701307697799304, 0.9461746957575601,
         - 0.6690465435572892, 0.10578554691520431, - 0.6690465435572892,
         0.47308734787878004, - 1.7701307697799304, 0.6258357354491761]"

text \<open>
  One summand of the source, \<open>C[j] * basis * sh_coeffs[..., k]\<close>: the constant table, the
  index into it, the polynomial in the direction, and the index of the coefficient.
\<close>

type_synonym sh_term = "real list \<times> nat \<times> real \<times> nat"

fun sh_sum :: "sh_term list \<Rightarrow> real list \<Rightarrow> real \<Rightarrow> error + real" where
  "sh_sum [] sh acc = Inr acc"
| "sh_sum ((tab, j, basis, k) # ts) sh acc =
     (case item tab j of
        Inl e \<Rightarrow> Inl e
      | Inr c \<Rightarrow>
          (case item sh k of
             Inl e \<Rightarrow> Inl e
           | Inr s \<Rightarrow> sh_sum ts sh (acc + c * basis * s)))"

definition band1 :: "real \<Rightarrow> real \<Rightarrow> real \<Rightarrow> sh_term list" where
  "band1 x y z = [([- C1], 0, y, 1), ([C1], 0, z, 2), ([- C1], 0, x, 3)]"

definition band2 :: "real \<Rightarrow> real \<Rightarrow> real \<Rightarrow> sh_term list" where
  "band2 x y z =
     (let xx = x * x; yy = y * y; zz = z * z; xy = x * y; yz = y * z; xz = x * z in
      [(C2, 0, xy, 4), (C2, 1, yz, 5), (C2, 2, 2 * zz - xx - yy, 6),
       (C2, 3, xz, 7), (C2, 4, xx - yy, 8)])"

definition band3 :: "real \<Rightarrow> real \<Rightarrow> real \<Rightarrow> sh_term list" where
  "band3 x y z =
     (let xx = x * x; yy = y * y; zz = z * z; xy = x * y in
      [(C3, 0, y * (3 * xx - yy), 9), (C3, 1, xy * z, 10),
       (C3, 2, y * (4 * zz - xx - yy), 11),
       (C3, 3, z * (2 * zz - 3 * xx - 3 * yy), 12),
       (C3, 4, x * (4 * zz - xx - yy), 13), (C3, 5, z * (xx - yy), 14),
       (C3, 6, x * (xx - 3 * yy), 15)])"

definition band4 :: "real list \<Rightarrow> real \<Rightarrow> real \<Rightarrow> real \<Rightarrow> sh_term list" where
  "band4 c4 x y z =
     (let xx = x * x; yy = y * y; zz = z * z; xy = x * y; yz = y * z; xz = x * z in
      [(c4, 0, xy * (xx - yy), 16), (c4, 1, yz * (3 * xx - yy), 17),
       (c4, 2, xy * (7 * zz - 1), 18), (c4, 3, yz * (7 * zz - 3), 19),
       (c4, 4, zz * (35 * zz - 30) + 3, 20), (c4, 5, xz * (7 * zz - 3), 21),
       (c4, 6, (xx - yy) * (7 * zz - 1), 22), (c4, 7, xz * (xx - 3 * yy), 23),
       (c4, 8, xx * (xx - 3 * yy) - yy * (3 * xx - yy), 24)])"

text \<open>
  \<open>evaluate_spherical_harmonics\<close> for one coefficient vector (the last dimension of
  \<open>sh_coeffs\<close>) and one direction \<open>(x, y, z)\<close>. The module constant \<open>C4\<close> is a parameter of
  \<open>sh_eval\<close>, so that dependence on it can be stated; the function of the source is
  \<open>sh_eval\<close> at \<^term>\<open>C4\<close>. The two \<open>assert\<close> statements come first, in the source's
  order; the bands are nested as the \<open>if\<close> statements are.
\<close>

definition sh_eval ::
  "real list \<Rightarrow> int \<Rightarrow> real list \<Rightarrow> real \<times> real \<times> real \<Rightarrow> error + real" where
  "sh_eval c4 degree sh_coeffs viewdirs =
     (if \<not> (4 > degree \<and> degree \<ge> 0) then Inl AssertionError
      else if (degree + 1) ^ 2 \<noteq> int (length sh_coeffs) then Inl AssertionError
      else
        (case viewdirs of (x, y, z) \<Rightarrow>
           sh_sum
             ([([C0], 0, 1, 0)] @
              (if degree > 0 then
                 band1 x y z @
                 (if degree > 1 then
                    band2 x y z @
                    (if degree > 2 then
                       band3 x y z @
                       (if degree > 3 then band4 c4 x y z else [])
                     else [])
                  else [])
               else []))
             sh_coeffs 0))"

definition evaluate_spherical_harmonics ::
  "int \<Rightarrow> real list \<Rightarrow> real \<times> real \<times> real \<Rightarrow> error + real" where
  "evaluate_spherical_harmonics = sh_eval C4"

section \<open>renderer.py: the renderer's state\<close>

type_synonym vec3 = "real \<times> real \<times> real"
type_synonym coord = "nat \<times> nat \<times> nat"

text \<open>
  The attributes of \<open>NeRFRenderer\<close> that the modelled methods read or write. The density
  grid is the tensor \<open>[cascade, grid_size ** 3]\<close>: one row per cascade. With
  \<open>cuda_ray = False\<close> the constructor registers no grid; the grid fields are then unused.
\<close>

record renderer =
  bound :: real
  cascade :: nat
  grid_size :: nat
  density_scale :: real
  min_near :: real
  density_thresh :: real
  bg_radius :: real
  cuda_ray :: bool
  training :: bool
  density_grid :: "real list list"
  density_bitfield :: "8 word list"
  mean_density :: real
  iter_density :: nat
  step_counter :: "(int \<times> int) list"
  mean_count :: int
  local_step :: nat

text \<open>
  What the grid methods call outside the two source files, and what they draw from the
  random generator, as inputs of the call: the Morton coder and the bit packer of the
  \<open>raymarching\<close> extension, the field's \<open>density(x)['sigma']\<close> at a point, and the draws of
  \<open>torch.rand_like\<close> (per cascade and coordinate) and of the two \<open>torch.randint\<close> calls
  (per cascade).
\<close>

record grid_env =
  morton3D :: "coord \<Rightarrow> nat"
  morton3D_invert :: "nat \<Rightarrow> coord"
  packbits :: "real list list \<Rightarrow> real \<Rightarrow> 8 word list \<Rightarrow> 8 word list"
  sigma_at :: "vec3 \<Rightarrow> real"
  rand_like :: "nat \<Rightarrow> coord \<Rightarrow> vec3"
  randint_coords :: "nat \<Rightarrow> coord list"
  randint_mask :: "nat \<Rightarrow> nat list"

subsection \<open>Tensor helpers\<close>

definition all_coords :: "nat \<Rightarrow> coord list" where
  \<comment> \<open>the triples of \<open>custom_meshgrid\<close> over all blocks of \<open>X\<close>, \<open>Y\<close>, \<open>Z\<close>: for a block size
      \<open>S \<ge> 1\<close> the blocks partition \<open>[0, grid_size)\<close>, so every triple is visited once\<close>
  "all_coords G = concat (map (\<lambda>x. concat (map (\<lambda>y. map (\<lambda>z. (x, y, z)) [0..<G]) [0..<G])) [0..<G])"

definition index_put :: "'a list \<Rightarrow> (nat \<times> 'a) list \<Rightarrow> error + 'a list" where
  \<comment> \<open>\<open>row[indices] = values\<close>: an index outside the row raises; of two writes to one cell
      the later one stays\<close>
  "index_put row ws =
     (if list_ex (\<lambda>(i, v). length row \<le> i) ws then Inl IndexError
      else Inr (fold (\<lambda>(i, v) r. r[i := v]) ws row))"

definition put_row :: "'a list list \<Rightarrow> nat \<Rightarrow> (nat \<times> 'a) list \<Rightarrow> error + 'a list list" where
  \<comment> \<open>\<open>grid[cas, indices] = values\<close>\<close>
  "put_row grid cas ws =
     (if length grid \<le> cas then Inl IndexError
      else (case index_put (grid ! cas) ws of
              Inl e \<Rightarrow> Inl e
            | Inr row \<Rightarrow> Inr (grid[cas := row])))"

definition take_at :: "'a list \<Rightarrow> nat list \<Rightarrow> error + 'a list" where
  \<comment> \<open>\<open>xs[indices]\<close> with a tensor of indices\<close>
  "take_at xs idx =
     (if list_ex (\<lambda>i. length xs \<le> i) idx then Inl IndexError
      else Inr (map (\<lambda>i. xs ! i) idx))"

definition ones_like_neg :: "real list list \<Rightarrow> real list list" where
  \<comment> \<open>\<open>- torch.ones_like(grid)\<close>\<close>
  "ones_like_neg grid = map (map (\<lambda>_. - 1)) grid"

definition mean :: "real list \<Rightarrow> real" where
  \<comment> \<open>\<open>torch.mean\<close> of all elements; of no element it is NaN in the source, 0 here\<close>
  "mean xs = sum_list xs / real (length xs)"

definition cas_bound :: "renderer \<Rightarrow> nat \<Rightarrow> real" where
  \<comment> \<open>\<open>min(2 ** cas, self.bound)\<close>\<close>
  "cas_bound st cas = min (2 ^ cas) (bound st)"

definition half_grid_size :: "renderer \<Rightarrow> nat \<Rightarrow> real" where
  "half_grid_size st cas = cas_bound st cas / real (grid_size st)"

definition unit_xyz :: "renderer \<Rightarrow> coord \<Rightarrow> vec3" where
  \<comment> \<open>\<open>2 * coords.float() / (self.grid_size - 1) - 1\<close>\<close>
  "unit_xyz st c =
     (case c of (x, y, z) \<Rightarrow>
        (2 * real x / (real (grid_size st) - 1) - 1,
         2 * real y / (real (grid_size st) - 1) - 1,
         2 * real z / (real (grid_size st) - 1) - 1))"

definition scale3 :: "vec3 \<Rightarrow> real \<Rightarrow> vec3" where
  "scale3 v k = (case v of (x, y, z) \<Rightarrow> (x * k, y * k, z * k))"

definition add3 :: "vec3 \<Rightarrow> vec3 \<Rightarrow> vec3" where
  "add3 u v = (case u of (a, b, c) \<Rightarrow> (case v of (x, y, z) \<Rightarrow> (a + x, b + y, c + z)))"

definition sub3 :: "vec3 \<Rightarrow> vec3 \<Rightarrow> vec3" where
  "sub3 u v = (case u of (a, b, c) \<Rightarrow> (case v of (x, y, z) \<Rightarrow> (a - x, b - y, c - z)))"

subsection \<open>\<open>mark_untrained_grid\<close>\<close>

text \<open>
  A camera pose is the rotation block \<open>poses[b, :3, :3]\<close> (its three rows) and the
  translation column \<open>poses[b, :3, 3]\<close>. \<open>in_frustum\<close> is \<open>mask_z & mask_x & mask_y\<close> for one
  pose and one point of one cascade; \<open>frustum_count\<close> is the sum of the mask over all poses
  (the source adds it up in batches of \<open>S\<close> poses).
\<close>

record pose =
  rot :: "vec3 \<times> vec3 \<times> vec3"
  trans :: vec3

definition cam_xyz :: "pose \<Rightarrow> vec3 \<Rightarrow> vec3" where
  \<comment> \<open>\<open>(p - t) @ R\<close>, a row vector times the rotation block\<close>
  "cam_xyz p w =
     (case sub3 w (trans p) of (a, b, c) \<Rightarrow>
        (case rot p of ((r00, r01, r02), (r10, r11, r12), (r20, r21, r22)) \<Rightarrow>
           (a * r00 + b * r10 + c * r20,
            a * r01 + b * r11 + c * r21,
            a * r02 + b * r12 + c * r22)))"

definition in_frustum :: "renderer \<Rightarrow> real \<times> real \<times> real \<times> real \<Rightarrow> nat \<Rightarrow> coord \<Rightarrow> pose \<Rightarrow> bool" where
  "in_frustum st intrinsic cas c p =
     (case intrinsic of (fx, fy, cx, cy) \<Rightarrow>
        (case cam_xyz p (scale3 (unit_xyz st c) (cas_bound st cas - half_grid_size st cas)) of
           (x, y, z) \<Rightarrow>
             z > 0 \<and>
             \<bar>x\<bar> < cx / fx * z + half_grid_size st cas * 2 \<and>
             \<bar>y\<bar> < cy / fy * z + half_grid_size st cas * 2))"

definition frustum_count :: "renderer \<Rightarrow> real \<times> real \<times> real \<times> real \<Rightarrow> pose list \<Rightarrow> nat \<Rightarrow> coord \<Rightarrow> nat" where
  "frustum_count st intrinsic poses cas c = length (filter (in_frustum st intrinsic cas c) poses)"

definition index_add :: "nat list \<Rightarrow> (nat \<times> nat) list \<Rightarrow> error + nat list" where
  \<comment> \<open>\<open>row[indices] += values\<close>; the indices of one call are Morton codes of distinct
      coordinates\<close>
  "index_add row ws =
     (if list_ex (\<lambda>(i, v). length row \<le> i) ws then Inl IndexError
      else Inr (fold (\<lambda>(i, v) r. r[i := r ! i + v]) ws row))"

fun count_cascades ::
  "grid_env \<Rightarrow> renderer \<Rightarrow> real \<times> real \<times> real \<times> real \<Rightarrow> pose list \<Rightarrow> nat list \<Rightarrow>
   nat list list \<Rightarrow> error + nat list list" where
  "count_cascades env st intrinsic poses [] count = Inr count"
| "count_cascades env st intrinsic poses (cas # rest) count =
     (if length count \<le> cas then Inl IndexError
      else
        (case index_add (count ! cas)
                (map (\<lambda>c. (morton3D env c, frustum_count st intrinsic poses cas c))
                   (all_coords (grid_size st))) of
           Inl e \<Rightarrow> Inl e
         | Inr row \<Rightarrow> count_cascades env st intrinsic poses rest (count[cas := row])))"

definition mark_untrained_grid ::
  "grid_env \<Rightarrow> renderer \<Rightarrow> pose list \<Rightarrow> real \<times> real \<times> real \<times> real \<Rightarrow> error + renderer" where
  "mark_untrained_grid env st poses intrinsic =
     (if \<not> cuda_ray st then Inr st
      else
        (case count_cascades env st intrinsic poses [0..<cascade st]
                (map (map (\<lambda>_. 0)) (density_grid st)) of
           Inl e \<Rightarrow> Inl e
         | Inr count \<Rightarrow>
             Inr (st\<lparr>density_grid :=
                    map2 (map2 (\<lambda>g n. if n = 0 then - 1 else g)) (density_grid st) count\<rparr>)))"

subsection \<open>\<open>update_extra_state\<close>\<close>

definition query_sigmas :: "grid_env \<Rightarrow> renderer \<Rightarrow> nat \<Rightarrow> coord list \<Rightarrow> real list" where
  \<comment> \<open>scale to the cascade, add the noise in \<open>[-hgs, hgs]\<close>, query the density, scale it\<close>
  "query_sigmas env st cas coords =
     map (\<lambda>c. sigma_at env
                 (add3 (scale3 (unit_xyz st c) (cas_bound st cas - half_grid_size st cas))
                       (scale3 (sub3 (scale3 (rand_like env cas c) 2) (1, 1, 1))
                               (half_grid_size st cas)))
               * density_scale st)
       coords"

fun full_update ::
  "grid_env \<Rightarrow> renderer \<Rightarrow> nat list \<Rightarrow> real list list \<Rightarrow> error + real list list" where
  "full_update env st [] tmp_grid = Inr tmp_grid"
| "full_update env st (cas # rest) tmp_grid =
     (let coords = all_coords (grid_size st);
          indices = map (morton3D env) coords;
          sigmas = query_sigmas env st cas coords in
      case put_row tmp_grid cas (zip indices sigmas) of
        Inl e \<Rightarrow> Inl e
      | Inr g \<Rightarrow> full_update env st rest g)"

fun partial_update ::
  "grid_env \<Rightarrow> renderer \<Rightarrow> nat list \<Rightarrow> real list list \<Rightarrow> error + real list list" where
  "partial_update env st [] tmp_grid = Inr tmp_grid"
| "partial_update env st (cas # rest) tmp_grid =
     (if length (density_grid st) \<le> cas then Inl IndexError
      else
        (let N = grid_size st ^ 3 div 4;
             coords = take N (randint_coords env cas);
             indices = map (morton3D env) coords;
             occ_indices = filter (\<lambda>i. density_grid st ! cas ! i > 0)
                             [0..<length (density_grid st ! cas)] in
         case (if length occ_indices > 0
               then (case take_at occ_indices (take N (randint_mask env cas)) of
                       Inl e \<Rightarrow> Inl e
                     | Inr occ \<Rightarrow>
                         Inr (indices @ occ, coords @ map (morton3D_invert env) occ))
               else Inr (indices, coords)) of
           Inl e \<Rightarrow> Inl e
         | Inr (indices', coords') \<Rightarrow>
             (case put_row tmp_grid cas (zip indices' (query_sigmas env st cas coords')) of
                Inl e \<Rightarrow> Inl e
              | Inr g \<Rightarrow> partial_update env st rest g)))"

definition sample_grid :: "grid_env \<Rightarrow> renderer \<Rightarrow> bool \<Rightarrow> error + real list list" where
  \<comment> \<open>\<open>tmp_grid\<close> after the sampling stage: \<open>- 1\<close> wherever no sample was written\<close>
  "sample_grid env st force_full_update =
     (if iter_density st < 16 \<or> force_full_update
      then full_update env st [0..<cascade st] (ones_like_neg (density_grid st))
      else partial_update env st [0..<cascade st] (ones_like_neg (density_grid st)))"

definition combine_cell :: "real \<Rightarrow> bool \<Rightarrow> real \<Rightarrow> real \<Rightarrow> real" where
  \<comment> \<open>one cell of \<open>grid[valid_mask] = maximum(grid[valid_mask] * decay, tmp_grid[valid_mask])\<close>\<close>
  "combine_cell decay force_full_grid g t =
     (let valid_mask = (if force_full_grid then True else g \<ge> 0 \<and> t \<ge> 0) in
      if valid_mask then max (g * decay) t else g)"

definition trunc_div :: "int \<Rightarrow> int \<Rightarrow> int" where
  \<comment> \<open>\<open>int(a / b)\<close> for \<open>b > 0\<close>: the quotient rounded towards zero\<close>
  "trunc_div a b = (if a \<ge> 0 then a div b else - ((- a) div b))"

definition update_extra_state ::
  "grid_env \<Rightarrow> renderer \<Rightarrow> real \<Rightarrow> bool \<Rightarrow> bool \<Rightarrow> error + renderer" where
  "update_extra_state env st decay force_full_update force_full_grid =
     (if \<not> cuda_ray st then Inr st
      else
        (case sample_grid env st force_full_update of
           Inl e \<Rightarrow> Inl e
         | Inr tmp_grid \<Rightarrow>
             (let grid = map2 (map2 (combine_cell decay force_full_grid)) (density_grid st) tmp_grid;
                  mean_density' = mean (map (max 0) (concat grid));
                  thresh = min mean_density' (density_thresh st);
                  total_step = min 16 (local_step st)
              in Inr (st\<lparr>density_grid := grid,
                         mean_density := mean_density',
                         iter_density := iter_density st + 1,
                         density_bitfield := packbits env grid thresh (density_bitfield st),
                         mean_count :=
                           (if total_step > 0
                            then trunc_div (sum_list (map fst (take total_step (step_counter st))))
                                   (int total_step)
                            else mean_count st),
                         local_step := 0\<rparr>))))"

text \<open>
  A sequence of later grid updates, each with its own arguments and its own draws; the
  first error ends it.
\<close>

fun update_sequence ::
  "renderer \<Rightarrow> (grid_env \<times> real \<times> bool \<times> bool) list \<Rightarrow> error + renderer" where
  "update_sequence st [] = Inr st"
| "update_sequence st ((env, decay, force_full_update, force_full_grid) # calls) =
     (case update_extra_state env st decay force_full_update force_full_grid of
        Inl e \<Rightarrow> Inl e
      | Inr st' \<Rightarrow> update_sequence st' calls)"

subsection \<open>A two-cell-wide grid for concrete runs\<close>

text \<open>
  A renderer with one cascade of \<open>2 \<times> 2 \<times> 2\<close> voxels, and an environment for it: the
  Morton code of a coordinate in \<open>{0, 1}\<^sup>3\<close> is \<open>x + 2 y + 4 z\<close>, the field has density
  \<open>1/2\<close> everywhere, and every random draw of \<open>rand_like\<close> is \<open>1/2\<close>.
\<close>

fun pack_byte :: "bool list \<Rightarrow> 8 word" where
  "pack_byte [] = 0"
| "pack_byte (b # bs) = (if b then 1 else 0) + 2 * pack_byte bs"

definition packbits_spec :: "real list list \<Rightarrow> real \<Rightarrow> 8 word list \<Rightarrow> 8 word list" where
  \<comment> \<open>Modelled from the spec: \<open>raymarching.packbits\<close> is not in the source files; a voxel's bit
      is 1 iff its value exceeds the threshold, eight voxels to a byte.\<close>
  "packbits_spec grid thresh old =
     (let bits = map (\<lambda>v. v > thresh) (concat grid) in
      map (\<lambda>k. pack_byte (take 8 (drop (8 * k) bits))) [0..<length bits div 8])"

definition tiny_env :: grid_env where
  "tiny_env =
     \<lparr>morton3D = (\<lambda>(x, y, z). x + 2 * y + 4 * z),
      morton3D_invert = (\<lambda>i. (i mod 2, (i div 2) mod 2, (i div 4) mod 2)),
      packbits = packbits_spec,
      sigma_at = (\<lambda>_. 1 / 2),
      rand_like = (\<lambda>_ _. (1 / 2, 1 / 2, 1 / 2)),
      randint_coords = (\<lambda>_. [(0, 0, 0), (1, 0, 0)]),
      randint_mask = (\<lambda>_. [0, 0])\<rparr>"

definition tiny_renderer :: renderer where
  "tiny_renderer =
     \<lparr>bound = 1, cascade = 1, grid_size = 2, density_scale = 1, min_near = 1 / 5,
      density_thresh = 1 / 100, bg_radius = - 1, cuda_ray = True, training = False,
      density_grid = [[0, 1, - 1, 0, 0, 0, 0, 0]], density_bitfield = [0],
      mean_density = 0, iter_density = 0, step_counter = replicate 16 (0, 0),
      mean_count = 0, local_step = 0\<rparr>"

definition away_pose :: pose where
  \<comment> \<open>a camera at \<open>(0, 0, 5)\<close> with the identity rotation: every voxel of the unit cube has a
      negative depth in its frame\<close>
  "away_pose = \<lparr>rot = ((1, 0, 0), (0, 1, 0), (0, 0, 1)), trans = (0, 0, 5)\<rparr>"

definition tiny_warm :: renderer where
  \<comment> \<open>the same renderer after sixteen updates: the next update is a partial one\<close>
  "tiny_warm = tiny_renderer\<lparr>iter_density := 16\<rparr>"

definition tiny_marked :: renderer where
  "tiny_marked = tiny_warm\<lparr>density_grid := [[- 1, - 1, - 1, - 1, - 1, - 1, - 1, - 1]]\<rparr>"

section \<open>renderer.py: sampling and compositing along one ray\<close>

text \<open>
  The functions below work on one ray: a tensor \<open>[N, T]\<close> of the source is the list of its
  \<open>T\<close> entries for that ray, and the source's operations act on each row alike.
\<close>

subsection \<open>Tensor operations on a row\<close>

fun cumsum_from :: "real \<Rightarrow> real list \<Rightarrow> real list" where
  "cumsum_from acc [] = []"
| "cumsum_from acc (x # xs) = (acc + x) # cumsum_from (acc + x) xs"

definition cumsum :: "real list \<Rightarrow> real list" where
  "cumsum xs = cumsum_from 0 xs"

definition linspace :: "real \<Rightarrow> real \<Rightarrow> nat \<Rightarrow> real list" where
  \<comment> \<open>\<open>torch.linspace(a, b, steps=n)\<close>\<close>
  "linspace a b n =
     (if n = 1 then [a] else map (\<lambda>i. a + real i * ((b - a) / (real n - 1))) [0..<n])"

definition searchsorted_right :: "real list \<Rightarrow> real \<Rightarrow> nat" where
  \<comment> \<open>\<open>torch.searchsorted(cdf, u, right=True)\<close> on a sorted row: the number of entries \<open>\<le> u\<close>\<close>
  "searchsorted_right cdf u = length (filter (\<lambda>c. c \<le> u) cdf)"

definition gather :: "'a list \<Rightarrow> int \<Rightarrow> error + 'a" where
  \<comment> \<open>one entry of \<open>torch.gather\<close>: an index outside the row raises\<close>
  "gather xs i = (if 0 \<le> i \<and> i < int (length xs) then Inr (xs ! nat i) else Inl RuntimeError)"

definition expand_to :: "nat \<Rightarrow> 'a list \<Rightarrow> error + 'a list" where
  \<comment> \<open>\<open>xs.expand([..., n])\<close>: a row of size 1 is repeated, any other size must be \<open>n\<close>\<close>
  "expand_to n xs =
     (if length xs = n then Inr xs
      else if length xs = 1 then Inr (replicate n (hd xs))
      else Inl RuntimeError)"

fun sequence_err :: "(error + 'a) list \<Rightarrow> error + 'a list" where
  "sequence_err [] = Inr []"
| "sequence_err (m # ms) =
     (case m of
        Inl e \<Rightarrow> Inl e
      | Inr x \<Rightarrow> (case sequence_err ms of Inl e \<Rightarrow> Inl e | Inr xs \<Rightarrow> Inr (x # xs)))"

definition broadcast2 :: "('a \<Rightarrow> 'b \<Rightarrow> 'c) \<Rightarrow> 'a list \<Rightarrow> 'b list \<Rightarrow> error + 'c list" where
  \<comment> \<open>an elementwise operation on two rows: equal sizes, or one of size 1\<close>
  "broadcast2 f xs ys =
     (if length xs = length ys then Inr (map2 f xs ys)
      else if length xs = 1 then Inr (map (f (hd xs)) ys)
      else if length ys = 1 then Inr (map (\<lambda>x. f x (hd ys)) xs)
      else Inl RuntimeError)"

subsection \<open>\<open>sample_pdf\<close>\<close>

text \<open>
  \<open>sample_pdf(bins, weights, n_samples, det)\<close> for one ray. With \<open>det = False\<close> the
  quantiles are the draws of \<open>torch.rand\<close>, numbers in \<open>[0, 1)\<close>; they are the argument
  \<open>u_rand\<close>. \<open>pdf_cdf\<close> is lines 13 to 16, \<open>sample_at\<close> lines 24 to 36 for one quantile.
\<close>

definition pdf_cdf :: "real list \<Rightarrow> real list" where
  "pdf_cdf weights =
     (let weights = map (\<lambda>w. w + 1 / 100000) weights;
          pdf = map (\<lambda>w. w / sum_list weights) weights;
          cdf = cumsum pdf
      in map (\<lambda>_. 0) (take 1 cdf) @ cdf)"

text \<open>
  The quotient of line 14 is a float division: a zero divisor gives \<open>nan\<close> (for \<open>0 / 0\<close>) or
  an infinity, and no later line of \<open>sample_pdf\<close> turns such a value into a number again.
  \<open>float_div\<close> is that division, with \<open>None\<close> for a result that is no finite number, and
  \<open>pdf_of\<close> is lines 13 and 14 with it: \<open>None\<close> when an entry of \<open>pdf\<close> is not finite.
\<close>

definition float_div :: "real \<Rightarrow> real \<Rightarrow> real option" where
  "float_div x y = (if y = 0 then None else Some (x / y))"

definition pdf_of :: "real list \<Rightarrow> real list option" where
  "pdf_of weights =
     (let weights = map (\<lambda>w. w + 1 / 100000) weights
      in those (map (\<lambda>w. float_div w (sum_list weights)) weights))"

definition bracket :: "real list \<Rightarrow> real \<Rightarrow> int \<times> int" where
  \<comment> \<open>lines 24 to 26: the indices \<open>below\<close> and \<open>above\<close> of the interval of the CDF around \<open>u\<close>\<close>
  "bracket cdf u =
     (let inds = int (searchsorted_right cdf u);
          below = max 0 (inds - 1);
          above = min (int (length cdf) - 1) inds
      in (below, above))"

definition sample_at :: "real list \<Rightarrow> real list \<Rightarrow> real \<Rightarrow> error + real" where
  "sample_at bins cdf u =
     (case bracket cdf u of (ibelow, iabove) \<Rightarrow>
        case gather cdf ibelow of Inl e \<Rightarrow> Inl e | Inr cdf_g0 \<Rightarrow>
        case gather cdf iabove of Inl e \<Rightarrow> Inl e | Inr cdf_g1 \<Rightarrow>
        case gather bins ibelow of Inl e \<Rightarrow> Inl e | Inr bins_g0 \<Rightarrow>
        case gather bins iabove of Inl e \<Rightarrow> Inl e | Inr bins_g1 \<Rightarrow>
          (let denom = cdf_g1 - cdf_g0;
               denom = (if denom < 1 / 100000 then 1 else denom);
               t = (u - cdf_g0) / denom
           in Inr (bins_g0 + t * (bins_g1 - bins_g0))))"

definition sample_pdf ::
  "real list \<Rightarrow> real list \<Rightarrow> nat \<Rightarrow> bool \<Rightarrow> real list \<Rightarrow> error + real list" where
  "sample_pdf bins weights n_samples det u_rand =
     (let cdf = pdf_cdf weights in
      if det \<and> n_samples = 0 then Inl ZeroDivisionError
      else
        (let u = (if det
                  then linspace (0 + (1 / 2) / real n_samples) (1 - (1 / 2) / real n_samples)
                         n_samples
                  else take n_samples u_rand)
         in case expand_to (length cdf) bins of
              Inl e \<Rightarrow> Inl e
            | Inr bins \<Rightarrow> sequence_err (map (sample_at bins cdf) u)))"

subsection \<open>The transmittance weights\<close>

text \<open>
  Lines 244 to 248 and 265 are translated with the rounding of the tensor's float type
  written out, because what they return at the edges depends on it: \<open>torch.exp\<close> of a small
  negative number is the float 1, so an \<open>alpha\<close> can be exactly 0 where the density and the
  interval are positive, and \<open>1 + 1e-15\<close> is a float above 1 only in double precision.
  \<open>rnd\<close> takes the exact result of one operation to the float that the tensor holds, and
  \<open>torch_exp\<close> is \<open>torch.exp\<close> on a float. \<open>torch.cumprod\<close> and \<open>sum\<close> take the entries of a row in
  index order.
\<close>

record float_arith =
  rnd :: "real \<Rightarrow> real"
  torch_exp :: "real \<Rightarrow> real"

definition exact_arith :: float_arith where
  \<comment> \<open>the arithmetic that never rounds\<close>
  "exact_arith = \<lparr>rnd = (\<lambda>x. x), torch_exp = exp\<rparr>"

definition float_model :: "float_arith \<Rightarrow> real \<Rightarrow> real \<Rightarrow> bool" where
  \<comment> \<open>what is assumed of the float type, for a unit roundoff \<open>u\<close> and an underflow unit \<open>h\<close>:
      rounding is monotone, keeps 0, 1 and every float, and exceeds a non-negative exact
      result \<open>x\<close> by at most \<open>u * x + h\<close>; \<open>torch.exp\<close> is 1 at 0 and within \<open>[0, 1]\<close> on the
      non-positive floats. Round-to-nearest of IEEE 754 is such a rounding as long as
      nothing overflows; overflow is not modelled.\<close>
  "float_model fa u h \<longleftrightarrow>
     0 \<le> u \<and> 0 \<le> h \<and> rnd fa 0 = 0 \<and> rnd fa 1 = 1 \<and>
     (\<forall>x y. x \<le> y \<longrightarrow> rnd fa x \<le> rnd fa y) \<and>
     (\<forall>x. rnd fa (rnd fa x) = rnd fa x) \<and>
     (\<forall>x. 0 \<le> x \<longrightarrow> rnd fa x \<le> (1 + u) * x + h) \<and>
     torch_exp fa 0 = 1 \<and>
     (\<forall>x. x \<le> 0 \<longrightarrow> 0 \<le> torch_exp fa x \<and> torch_exp fa x \<le> 1)"

fun cumprod_from :: "float_arith \<Rightarrow> real \<Rightarrow> real list \<Rightarrow> real list" where
  "cumprod_from fa acc [] = []"
| "cumprod_from fa acc (x # xs) = rnd fa (acc * x) # cumprod_from fa (rnd fa (acc * x)) xs"

definition cumprod :: "float_arith \<Rightarrow> real list \<Rightarrow> real list" where
  \<comment> \<open>\<open>torch.cumprod\<close>: the first entry as it is, then one rounded product per entry\<close>
  "cumprod fa xs = (case xs of [] \<Rightarrow> [] | x # xs' \<Rightarrow> x # cumprod_from fa x xs')"

definition torch_sum :: "float_arith \<Rightarrow> real list \<Rightarrow> real" where
  \<comment> \<open>\<open>row.sum(dim=-1)\<close>: one rounded addition per entry, from 0\<close>
  "torch_sum fa xs = foldl (\<lambda>acc x. rnd fa (acc + x)) 0 xs"

definition deltas_of :: "float_arith \<Rightarrow> real list \<Rightarrow> real \<Rightarrow> real list" where
  \<comment> \<open>\<open>z_vals[..., 1:] - z_vals[..., :-1]\<close>, then \<open>sample_dist\<close> appended once, if there is a
      difference at all (\<open>ones_like(deltas[..., :1])\<close>)\<close>
  "deltas_of fa z_vals sample_dist =
     (let deltas = map2 (\<lambda>a b. rnd fa (a - b)) (tl z_vals) (butlast z_vals)
      in deltas @ map (\<lambda>_. rnd fa (sample_dist * 1)) (take 1 deltas))"

definition alpha_of :: "float_arith \<Rightarrow> real \<Rightarrow> real \<Rightarrow> real \<Rightarrow> real" where
  \<comment> \<open>one entry of \<open>1 - torch.exp(-deltas * self.density_scale * sigma)\<close>: the product is
      taken from the left, each operation rounds\<close>
  "alpha_of fa scale d s =
     rnd fa (1 - torch_exp fa (rnd fa (rnd fa (- d * scale) * s)))"

definition alphas_of :: "float_arith \<Rightarrow> real list \<Rightarrow> real \<Rightarrow> real list \<Rightarrow> error + real list" where
  "alphas_of fa deltas scale sigmas = broadcast2 (alpha_of fa scale) deltas sigmas"

definition weights_of_alphas :: "float_arith \<Rightarrow> real list \<Rightarrow> real list" where
  \<comment> \<open>\<open>alphas * cumprod(cat([1, 1 - alphas + 1e-15]))[..., :-1]\<close>\<close>
  "weights_of_alphas fa alphas =
     (let alphas_shifted =
            map (\<lambda>_. 1) (take 1 alphas) @
            map (\<lambda>a. rnd fa (rnd fa (1 - a) + rnd fa (1 / 10 ^ 15))) alphas
      in map2 (\<lambda>a T. rnd fa (a * T)) alphas (butlast (cumprod fa alphas_shifted)))"

definition weights_of ::
  "float_arith \<Rightarrow> real list \<Rightarrow> real \<Rightarrow> real \<Rightarrow> real list \<Rightarrow> error + real list" where
  \<comment> \<open>lines 244 to 248 (and 211 to 216): the weights of one ray's samples\<close>
  "weights_of fa z_vals sample_dist scale sigmas =
     (case alphas_of fa (deltas_of fa z_vals sample_dist) scale sigmas of
        Inl e \<Rightarrow> Inl e
      | Inr alphas \<Rightarrow> Inr (weights_of_alphas fa alphas))"

definition weights_sum_of ::
  "float_arith \<Rightarrow> real list \<Rightarrow> real \<Rightarrow> real \<Rightarrow> real list \<Rightarrow> error + real" where
  \<comment> \<open>line 265: \<open>weights.sum(dim=-1)\<close>\<close>
  "weights_sum_of fa z_vals sample_dist scale sigmas =
     (case weights_of fa z_vals sample_dist scale sigmas of
        Inl e \<Rightarrow> Inl e
      | Inr weights \<Rightarrow> Inr (torch_sum fa weights))"

subsection \<open>Merging the uniform and the resampled points\<close>

definition torch_sort :: "real list \<Rightarrow> real list \<times> nat list" where
  \<comment> \<open>\<open>torch.sort\<close> of a row: the sorted values and, for each, its index in the input. Which of
      two equal values comes first is not fixed by \<open>torch.sort\<close>; here the earlier one does.\<close>
  "torch_sort z =
     (let ps = sort_key fst (zip z [0..<length z]) in (map fst ps, map snd ps))"

definition gather_as :: "'a list \<Rightarrow> nat list \<Rightarrow> error + 'a list" where
  \<comment> \<open>\<open>torch.gather(xs, dim=1, index=idx.unsqueeze(-1).expand_as(xs))\<close>: the index row is
      expanded to the row's size (equal, or of size 1), and an index outside the row raises\<close>
  "gather_as xs idx =
     (case expand_to (length xs) idx of
        Inl e \<Rightarrow> Inl e
      | Inr idx \<Rightarrow> sequence_err (map (\<lambda>i. gather xs (int i)) idx))"

type_synonym 'a outputs_dict = "(string \<times> 'a list) list"

fun gather_dict ::
  "'a outputs_dict \<Rightarrow> 'a outputs_dict \<Rightarrow> nat list \<Rightarrow> 'a outputs_dict \<Rightarrow> error + 'a outputs_dict" where
  \<comment> \<open>the loop \<open>for k in density_outputs\<close>, over the keys in the dictionary's order\<close>
  "gather_dict [] new_outputs z_index acc = Inr acc"
| "gather_dict ((k, v) # rest) new_outputs z_index acc =
     (case map_of new_outputs k of
        None \<Rightarrow> Inl KeyError
      | Some new_v \<Rightarrow>
          (case gather_as (v @ new_v) z_index of
             Inl e \<Rightarrow> Inl e
           | Inr tmp \<Rightarrow> gather_dict rest new_outputs z_index (acc @ [(k, tmp)])))"

definition merge_samples ::
  "real list \<Rightarrow> real list \<Rightarrow> 'p list \<Rightarrow> 'p list \<Rightarrow> 'a outputs_dict \<Rightarrow> 'a outputs_dict \<Rightarrow>
   error + (real list \<times> nat list \<times> 'p list \<times> 'a outputs_dict)" where
  \<comment> \<open>lines 234 to 242; the index row of the sort is returned with the merged rows\<close>
  "merge_samples z_vals new_z_vals xyzs new_xyzs density_outputs new_density_outputs =
     (case torch_sort (z_vals @ new_z_vals) of (z_vals', z_index) \<Rightarrow>
        (case gather_as (xyzs @ new_xyzs) z_index of
           Inl e \<Rightarrow> Inl e
         | Inr xyzs' \<Rightarrow>
             (case gather_dict density_outputs new_density_outputs z_index [] of
                Inl e \<Rightarrow> Inl e
              | Inr density_outputs' \<Rightarrow> Inr (z_vals', z_index, xyzs', density_outputs'))))"

section \<open>renderer.py: \<open>render\<close> and \<open>run_cuda\<close>\<close>





subsection \<open>\<open>render\<close>\<close>







subsection \<open>\<open>run_cuda\<close>\<close>











subsection \<open>Kernels for a run of \<open>run_cuda\<close>\<close>











section \<open>Properties of the spherical-harmonics evaluator\<close>

lemma C2_length: "length C2 = 5"
  by (simp add: C2_def)

lemma C3_length: "length C3 = 7"
  by (simp add: C3_def)

lemma degree_cases:
  "0 \<le> d \<Longrightarrow> d < 4 \<Longrightarrow> d = 0 \<or> d = 1 \<or> d = 2 \<or> d = (3::int)"
  by arith

text \<open>
  With a supported degree and the matching number of coefficients every index the bands
  read is in range: the evaluator returns a value.
\<close>

lemma sh_eval_returns:
  assumes "0 \<le> degree" "degree < 4" "(degree + 1) ^ 2 = int (length sh)"
  shows "\<exists>r. sh_eval c4 degree sh v = Inr r"
proof -
  obtain x y z where v: "v = (x, y, z)" by (cases v) auto
  from degree_cases[OF assms(1,2)] show ?thesis
  proof (elim disjE)
    assume d: "degree = 0"
    with assms(3) have "length sh = 1" by simp
    then show ?thesis using d v by (simp add: sh_eval_def item_def)
  next
    assume d: "degree = 1"
    with assms(3) have "length sh = 4" by simp
    then show ?thesis using d v by (simp add: sh_eval_def item_def band1_def)
  next
    assume d: "degree = 2"
    with assms(3) have "length sh = 9" by simp
    then show ?thesis using d v
      by (simp add: sh_eval_def item_def band1_def band2_def C2_length Let_def)
  next
    assume d: "degree = 3"
    with assms(3) have "length sh = 16" by simp
    then show ?thesis using d v
      by (simp add: sh_eval_def item_def band1_def band2_def band3_def C2_length C3_length
            Let_def)
  qed
qed

text \<open>
  Claim C9. \<open>evaluate_spherical_harmonics\<close> raises exactly when \<open>degree\<close> is outside
  \<open>[0, 3]\<close> or the number of coefficients differs from \<open>(degree + 1)\<^sup>2\<close>. In that case
  the result is the assertion's error whatever the coefficients and the direction hold
  (nothing of them has been read); in every other case a value is returned, so no other
  error arises.
\<close>

theorem evaluate_spherical_harmonics_fails_iff:
  "(if degree < 0 \<or> 3 < degree \<or> int (length sh_coeffs) \<noteq> (degree + 1) ^ 2
    then evaluate_spherical_harmonics degree sh_coeffs viewdirs = Inl AssertionError
    else \<exists>r. evaluate_spherical_harmonics degree sh_coeffs viewdirs = Inr r)"
proof (cases "degree < 0 \<or> 3 < degree \<or> int (length sh_coeffs) \<noteq> (degree + 1) ^ 2")
  case True
  then show ?thesis by (auto simp: evaluate_spherical_harmonics_def sh_eval_def)
next
  case False
  then have "\<exists>r. sh_eval C4 degree sh_coeffs viewdirs = Inr r"
    by (intro sh_eval_returns) auto
  with False show ?thesis by (simp add: evaluate_spherical_harmonics_def)
qed

theorem evaluate_spherical_harmonics_fails_iff_witness:
  "evaluate_spherical_harmonics 0 [1] (0, 0, 1) = Inr C0
   \<and> evaluate_spherical_harmonics 4 (replicate 25 1) (0, 0, 1) = Inl AssertionError
   \<and> evaluate_spherical_harmonics (- 1) [] (0, 0, 1) = Inl AssertionError
   \<and> evaluate_spherical_harmonics 1 [1, 2, 3] (0, 0, 1) = Inl AssertionError"
  using evaluate_spherical_harmonics_fails_iff[of 0 "[1]" "(0, 0, 1)"]
    evaluate_spherical_harmonics_fails_iff[of 4 "replicate 25 1" "(0, 0, 1)"]
    evaluate_spherical_harmonics_fails_iff[of "- 1" "[]" "(0, 0, 1)"]
    evaluate_spherical_harmonics_fails_iff[of 1 "[1, 2, 3]" "(0, 0, 1)"]
  by (simp add: evaluate_spherical_harmonics_def sh_eval_def item_def)

text \<open>
  Claim C10. The band guarded by \<open>degree > 3\<close> is never evaluated: whatever array stands
  in the place of the constant \<open>C4\<close> (here \<open>c4\<close>, of any length and content), the result
  is that of the source's function, for every degree, coefficient vector and direction.
  A call that passes the assertions has \<open>degree \<le> 3\<close>; a call that fails them raises
  before the bands.
\<close>

theorem evaluate_spherical_harmonics_ignores_C4:
  "sh_eval c4 degree sh_coeffs viewdirs = evaluate_spherical_harmonics degree sh_coeffs viewdirs"
proof (cases "3 < degree")
  case True
  then show ?thesis by (simp add: evaluate_spherical_harmonics_def sh_eval_def)
next
  case False
  then show ?thesis
    unfolding evaluate_spherical_harmonics_def sh_eval_def
    by (cases viewdirs) (simp cong: if_cong sum.case_cong)
qed

theorem evaluate_spherical_harmonics_ignores_C4_witness:
  "sh_eval [] 3 (replicate 16 1) (0, 0, 1) =
     evaluate_spherical_harmonics 3 (replicate 16 1) (0, 0, 1)
   \<and> (\<exists>r. evaluate_spherical_harmonics 3 (replicate 16 1) (0, 0, 1) = Inr r)"
  using evaluate_spherical_harmonics_ignores_C4[of "[]" 3 "replicate 16 1" "(0, 0, 1)"]
  by (simp add: evaluate_spherical_harmonics_def sh_eval_def item_def band1_def band2_def
        band3_def Let_def C2_length C3_length)

section \<open>Properties of the density grid\<close>

lemma fold_update_length:
  "length (fold (\<lambda>(i, v) r. r[i := v]) ws row) = length row"
  by (induction ws arbitrary: row) (auto split: prod.splits)

lemma index_put_length:
  "index_put row ws = Inr r \<Longrightarrow> length r = length row"
  by (auto simp: index_put_def fold_update_length split: if_splits)

lemma put_row_shape:
  assumes "put_row g cas ws = Inr g'"
  shows "map length g' = map length g"
proof -
  from assms obtain row where c: "cas < length g" and r: "index_put (g ! cas) ws = Inr row"
    and g': "g' = g[cas := row]"
    by (auto simp: put_row_def split: if_splits sum.splits)
  have "length row = length (g ! cas)" using r by (rule index_put_length)
  then have "(map length g)[cas := length row] = map length g"
    using c by (simp add: list_update_same_conv)
  then show ?thesis by (simp add: g' map_update)
qed

lemma full_update_shape:
  "full_update env st cs g = Inr g' \<Longrightarrow> map length g' = map length g"
proof (induction cs arbitrary: g)
  case Nil
  then show ?case by simp
next
  case (Cons cas cs)
  then show ?case
    by (auto simp: Let_def split: sum.splits dest!: put_row_shape)
qed

lemma partial_update_shape:
  "partial_update env st cs g = Inr g' \<Longrightarrow> map length g' = map length g"
proof (induction cs arbitrary: g)
  case Nil
  then show ?case by simp
next
  case (Cons cas cs)
  from Cons.prems obtain g1 ws where p: "put_row g cas ws = Inr g1"
    and r: "partial_update env st cs g1 = Inr g'"
    by (auto simp: Let_def split: if_splits sum.splits prod.splits)
  from Cons.IH[OF r] put_row_shape[OF p] show ?case by simp
qed

lemma sample_grid_shape:
  "sample_grid env st ffu = Inr tmp \<Longrightarrow> map length tmp = map length (density_grid st)"
  by (auto simp: sample_grid_def ones_like_neg_def comp_def split: if_splits
        dest!: full_update_shape partial_update_shape)

lemma same_shape_nth:
  assumes "map length tmp = map length grid" "c < length grid"
  shows "length tmp = length grid" "length (tmp ! c) = length (grid ! c)"
proof -
  show l: "length tmp = length grid" using assms(1) by (metis length_map)
  have "map length tmp ! c = map length grid ! c" using assms(1) by simp
  then show "length (tmp ! c) = length (grid ! c)" using assms(2) l by simp
qed

lemma map2_map2_nth:
  assumes "map length tmp = map length grid" "c < length grid" "i < length (grid ! c)"
  shows "map2 (map2 f) grid tmp ! c ! i = f (grid ! c ! i) (tmp ! c ! i)"
  using same_shape_nth[OF assms(1,2)] assms(2,3) by simp

lemma map2_map2_shape:
  assumes "map length tmp = map length grid"
  shows "map length (map2 (map2 f) grid tmp) = map length grid"
proof (rule nth_equalityI)
  show "length (map length (map2 (map2 f) grid tmp)) = length (map length grid)"
    using assms by (metis length_map length_zip min.idem)
next
  fix c assume "c < length (map length (map2 (map2 f) grid tmp))"
  then have c: "c < length grid" by simp
  from same_shape_nth[OF assms c] c
  show "map length (map2 (map2 f) grid tmp) ! c = map length grid ! c" by simp
qed

lemma update_extra_state_grid:
  assumes "update_extra_state env st decay ffu ffg = Inr st'" "cuda_ray st"
  shows "\<exists>tmp. sample_grid env st ffu = Inr tmp \<and>
           density_grid st' = map2 (map2 (combine_cell decay ffg)) (density_grid st) tmp"
  using assms by (auto simp: update_extra_state_def Let_def split: sum.splits)


text \<open>
  Claim C6. After a grid update \<open>mean_density\<close> is the mean over all cells of the new grid
  with every negative cell counted as 0 (the sum of \<open>max 0 v\<close> divided by the number of
  all cells), and the bitfield is what \<open>packbits\<close> returns for the new grid and the
  threshold \<open>min mean_density density_thresh\<close>.
\<close>

theorem update_extra_state_mean_and_bitfield:
  assumes "update_extra_state env st decay force_full_update force_full_grid = Inr st'"
    and "cuda_ray st"
  shows "mean_density st' =
           sum_list (map (max 0) (concat (density_grid st'))) /
             real (length (concat (density_grid st')))
         \<and> density_bitfield st' =
             packbits env (density_grid st') (min (mean_density st') (density_thresh st))
               (density_bitfield st)
         \<and> density_thresh st' = density_thresh st"
  using assms by (auto simp: update_extra_state_def Let_def mean_def split: sum.splits)

lemma update_extra_state_shape:
  assumes "update_extra_state env st decay ffu ffg = Inr st'"
  shows "map length (density_grid st') = map length (density_grid st)"
proof (cases "cuda_ray st")
  case True
  from update_extra_state_grid[OF assms True] obtain tmp where
    t: "sample_grid env st ffu = Inr tmp" and
    g: "density_grid st' = map2 (map2 (combine_cell decay ffg)) (density_grid st) tmp"
    by blast
  show ?thesis unfolding g by (rule map2_map2_shape[OF sample_grid_shape[OF t]])
next
  case False
  then show ?thesis using assms by (simp add: update_extra_state_def)
qed

lemma update_extra_state_keeps_negative:
  assumes "update_extra_state env st decay ffu False = Inr st'"
    and "c < length (density_grid st)" and "i < length (density_grid st ! c)"
    and "density_grid st ! c ! i < 0"
  shows "density_grid st' ! c ! i = density_grid st ! c ! i"
proof (cases "cuda_ray st")
  case True
  from update_extra_state_grid[OF assms(1) True] obtain tmp where
    t: "sample_grid env st ffu = Inr tmp" and
    g: "density_grid st' = map2 (map2 (combine_cell decay False)) (density_grid st) tmp"
    by blast
  have "density_grid st' ! c ! i = combine_cell decay False (density_grid st ! c ! i) (tmp ! c ! i)"
    unfolding g by (rule map2_map2_nth[OF sample_grid_shape[OF t] assms(2,3)])
  then show ?thesis using assms(4) by (simp add: combine_cell_def)
next
  case False
  then show ?thesis using assms(1) by (simp add: update_extra_state_def)
qed

lemma update_sequence_keeps_negative:
  assumes "update_sequence st calls = Inr st'"
    and "list_all (\<lambda>(env, decay, ffu, ffg). \<not> ffg) calls"
    and "c < length (density_grid st)" and "i < length (density_grid st ! c)"
    and "density_grid st ! c ! i < 0"
  shows "density_grid st' ! c ! i = density_grid st ! c ! i"
  using assms
proof (induction calls arbitrary: st)
  case Nil
  then show ?case by simp
next
  case (Cons call calls)
  obtain env decay ffu ffg where call: "call = (env, decay, ffu, ffg)" by (cases call) auto
  from Cons.prems(2) call have nf: "\<not> ffg" and rest: "list_all (\<lambda>(env, decay, ffu, ffg). \<not> ffg) calls"
    by auto
  from Cons.prems(1) call nf obtain st1 where
    u: "update_extra_state env st decay ffu False = Inr st1" and
    s: "update_sequence st1 calls = Inr st'"
    by (auto split: sum.splits)
  have k: "density_grid st1 ! c ! i = density_grid st ! c ! i"
    by (rule update_extra_state_keeps_negative[OF u Cons.prems(3,4,5)])
  have sh: "map length (density_grid st1) = map length (density_grid st)"
    by (rule update_extra_state_shape[OF u])
  have c1: "c < length (density_grid st1)" "i < length (density_grid st1 ! c)"
    using same_shape_nth[OF sh Cons.prems(3)] Cons.prems(3,4) by simp_all
  have "density_grid st' ! c ! i = density_grid st1 ! c ! i"
    using Cons.IH[OF s rest c1] Cons.prems(5) k by simp
  then show ?case using k by simp
qed


lemma fold_add_length:
  "length (fold (\<lambda>(i, v) r. r[i := r ! i + v]) ws row) = length row"
  by (induction ws arbitrary: row) (auto split: prod.splits)

lemma index_add_length:
  "index_add row ws = Inr r \<Longrightarrow> length r = length row"
  by (auto simp: index_add_def fold_add_length split: if_splits)

lemma count_cascades_shape:
  "count_cascades env st intrinsic poses cs count = Inr count' \<Longrightarrow>
   map length count' = map length count"
proof (induction cs arbitrary: count)
  case Nil
  then show ?case by simp
next
  case (Cons cas cs)
  from Cons.prems obtain row where c: "cas < length count"
    and r: "index_add (count ! cas)
              (map (\<lambda>c. (morton3D env c, frustum_count st intrinsic poses cas c))
                 (all_coords (grid_size st))) = Inr row"
    and rest: "count_cascades env st intrinsic poses cs (count[cas := row]) = Inr count'"
    by (auto split: if_splits sum.splits)
  have "length row = length (count ! cas)" using r by (rule index_add_length)
  then have "(map length count)[cas := length row] = map length count"
    using c by (simp add: list_update_same_conv)
  with Cons.IH[OF rest] show ?case by (simp add: map_update)
qed

lemma mark_untrained_grid_marks:
  assumes "cuda_ray st"
    and "count_cascades env st intrinsic poses [0..<cascade st]
           (map (map (\<lambda>_. 0)) (density_grid st)) = Inr count"
    and "c < length (density_grid st)" and "i < length (density_grid st ! c)"
  shows "\<exists>st1. mark_untrained_grid env st poses intrinsic = Inr st1 \<and>
           map length (density_grid st1) = map length (density_grid st) \<and>
           density_grid st1 ! c ! i = (if count ! c ! i = 0 then - 1 else density_grid st ! c ! i)"
proof -
  have sh: "map length count = map length (density_grid st)"
    using count_cascades_shape[OF assms(2)] by (simp add: comp_def)
  let ?g = "map2 (map2 (\<lambda>g n. if n = 0 then - 1 else g)) (density_grid st) count"
  have "mark_untrained_grid env st poses intrinsic = Inr (st\<lparr>density_grid := ?g\<rparr>)"
    using assms(1,2) by (simp add: mark_untrained_grid_def)
  moreover have "map length ?g = map length (density_grid st)"
    by (rule map2_map2_shape[OF sh])
  moreover have "?g ! c ! i = (if count ! c ! i = 0 then - 1 else density_grid st ! c ! i)"
    by (rule map2_map2_nth[OF sh assms(3,4)])
  ultimately show ?thesis by simp
qed

text \<open>
  Claim C8, as the code has it. A voxel that \<open>mark_untrained_grid\<close> marks (no pose's
  frustum covers it: its count is 0) holds \<open>- 1\<close> afterwards and after every later sequence
  of grid updates of which none is called with \<open>force_full_grid\<close>, whatever their decay,
  their sampling stage (full or partial) and their samples.
\<close>

theorem marked_voxel_stays_invalid:
  assumes "cuda_ray st0"
    and "count_cascades menv st0 intrinsic poses [0..<cascade st0]
           (map (map (\<lambda>_. 0)) (density_grid st0)) = Inr count"
    and "c < length (density_grid st0)" and "i < length (density_grid st0 ! c)"
    and "count ! c ! i = 0"
    and "mark_untrained_grid menv st0 poses intrinsic = Inr st1"
    and "update_sequence st1 calls = Inr st2"
    and "list_all (\<lambda>(env, decay, force_full_update, force_full_grid). \<not> force_full_grid) calls"
  shows "density_grid st1 ! c ! i = - 1 \<and> density_grid st2 ! c ! i = - 1"
proof -
  from mark_untrained_grid_marks[OF assms(1,2,3,4)] assms(5,6)
  have sh: "map length (density_grid st1) = map length (density_grid st0)"
    and m: "density_grid st1 ! c ! i = - 1"
    by auto
  have c1: "c < length (density_grid st1)" "i < length (density_grid st1 ! c)"
    using same_shape_nth[OF sh assms(3)] assms(3,4) by simp_all
  have "density_grid st2 ! c ! i = density_grid st1 ! c ! i"
    by (rule update_sequence_keeps_negative[OF assms(7) _ c1]) (use assms(8) m in auto)
  with m show ?thesis by simp
qed

subsection \<open>Concrete runs on the two-cell-wide grid\<close>

lemma all_coords_2:
  "all_coords 2 =
     [(0, 0, 0), (0, 0, 1), (0, 1, 0), (0, 1, 1), (1, 0, 0), (1, 0, 1), (1, 1, 0), (1, 1, 1)]"
  by (simp add: all_coords_def upt_rec)

lemma upt_8: "[0..<8] = [0, 1, 2, 3, 4, 5, 6, 7::nat]"
  by (simp add: upt_rec)

lemma tiny_partial_sample:
  "sample_grid tiny_env tiny_warm False = Inr [[1 / 2, 1 / 2, - 1, - 1, - 1, - 1, - 1, - 1]]"
  by (simp add: sample_grid_def tiny_env_def tiny_renderer_def tiny_warm_def ones_like_neg_def
        upt_8 Let_def query_sigmas_def put_row_def index_put_def take_at_def)

lemma tiny_partial_update:
  "\<exists>st'. update_extra_state tiny_env tiny_warm (19 / 20) False False = Inr st'"
  by (simp add: update_extra_state_def tiny_partial_sample Let_def)

lemma tiny_partial_grid:
  assumes "update_extra_state tiny_env tiny_warm (19 / 20) False False = Inr st'"
  shows "density_grid st' = [[1 / 2, 19 / 20, - 1, 0, 0, 0, 0, 0]]"
proof -
  have "cuda_ray tiny_warm" by (simp add: tiny_warm_def tiny_renderer_def)
  from update_extra_state_grid[OF assms this] show ?thesis
    by (simp add: tiny_partial_sample) (simp add: tiny_warm_def tiny_renderer_def combine_cell_def)
qed


theorem update_extra_state_mean_and_bitfield_witness:
  "\<exists>st'. update_extra_state tiny_env tiny_warm (19 / 20) False False = Inr st'
     \<and> density_grid st' = [[1 / 2, 19 / 20, - 1, 0, 0, 0, 0, 0]]
     \<and> mean_density st' = 29 / 160
     \<and> density_bitfield st' = [3]"
proof -
  from tiny_partial_update obtain st' where
    u: "update_extra_state tiny_env tiny_warm (19 / 20) False False = Inr st'" by blast
  have c: "cuda_ray tiny_warm" by (simp add: tiny_warm_def tiny_renderer_def)
  have m: "mean_density st' = 29 / 160"
    using update_extra_state_mean_and_bitfield[OF u c] by (simp add: tiny_partial_grid[OF u])
  have "density_bitfield st' = [3]"
    using update_extra_state_mean_and_bitfield[OF u c]
    by (simp add: tiny_partial_grid[OF u] m tiny_env_def tiny_warm_def tiny_renderer_def
          packbits_spec_def)
  with u m tiny_partial_grid[OF u] show ?thesis by blast
qed

lemma tiny_warm_count:
  "count_cascades tiny_env tiny_warm (1, 1, 1, 1) [away_pose] [0..<cascade tiny_warm]
     (map (map (\<lambda>_. 0)) (density_grid tiny_warm)) = Inr [[0, 0, 0, 0, 0, 0, 0, 0]]"
  by (simp add: tiny_env_def tiny_renderer_def tiny_warm_def all_coords_2 index_add_def
        frustum_count_def in_frustum_def cam_xyz_def away_pose_def sub3_def scale3_def
        unit_xyz_def cas_bound_def half_grid_size_def)

lemma tiny_warm_mark:
  "mark_untrained_grid tiny_env tiny_warm [away_pose] (1, 1, 1, 1) = Inr tiny_marked"
  by (simp add: mark_untrained_grid_def tiny_warm_count tiny_marked_def)
     (simp add: tiny_warm_def tiny_renderer_def)

lemma tiny_marked_updates:
  "\<exists>st2. update_sequence tiny_marked
           [(tiny_env, 19 / 20, False, False), (tiny_env, 1, True, False)] = Inr st2"
  by (simp add: update_extra_state_def sample_grid_def tiny_env_def tiny_renderer_def
        tiny_warm_def tiny_marked_def ones_like_neg_def upt_8 all_coords_2 Let_def
        query_sigmas_def put_row_def index_put_def take_at_def)

theorem marked_voxel_stays_invalid_witness:
  "\<exists>st1 st2. mark_untrained_grid tiny_env tiny_warm [away_pose] (1, 1, 1, 1) = Inr st1
     \<and> update_sequence st1 [(tiny_env, 19 / 20, False, False), (tiny_env, 1, True, False)]
         = Inr st2
     \<and> density_grid st1 ! 0 ! 0 = - 1
     \<and> density_grid st2 ! 0 ! 0 = - 1"
proof -
  from tiny_marked_updates obtain st2 where
    s: "update_sequence tiny_marked
          [(tiny_env, 19 / 20, False, False), (tiny_env, 1, True, False)] = Inr st2" by blast
  have c: "cuda_ray tiny_warm" "0 < length (density_grid tiny_warm)"
    "0 < length (density_grid tiny_warm ! 0)"
    by (simp_all add: tiny_warm_def tiny_renderer_def)
  have "density_grid tiny_marked ! 0 ! 0 = - 1 \<and> density_grid st2 ! 0 ! 0 = - 1"
    by (rule marked_voxel_stays_invalid[OF c(1) tiny_warm_count c(2,3) _ tiny_warm_mark s])
       simp_all
  with s tiny_warm_mark show ?thesis by blast
qed

text \<open>
  Claim C8, as it is stated, fails for an update called with \<open>force_full_grid\<close> (as
  \<open>initialize_states\<close> calls it, with \<open>decay = 0\<close> and both flags set): the mask covers every
  cell, and the marked voxel takes the sampled density.
\<close>

lemma tiny_marked_full_sample:
  "sample_grid tiny_env tiny_marked True =
     Inr [[1 / 2, 1 / 2, 1 / 2, 1 / 2, 1 / 2, 1 / 2, 1 / 2, 1 / 2]]"
  by (simp add: sample_grid_def tiny_env_def tiny_renderer_def tiny_warm_def tiny_marked_def
        ones_like_neg_def all_coords_2 Let_def query_sigmas_def put_row_def index_put_def)

theorem forced_update_overwrites_marked_voxel:
  "\<exists>st1 st2. mark_untrained_grid tiny_env tiny_warm [away_pose] (1, 1, 1, 1) = Inr st1
     \<and> density_grid st1 ! 0 ! 0 = - 1
     \<and> update_extra_state tiny_env st1 0 True True = Inr st2
     \<and> density_grid st2 ! 0 ! 0 = 1 / 2"
proof -
  have "\<exists>st2. update_extra_state tiny_env tiny_marked 0 True True = Inr st2
          \<and> density_grid st2 ! 0 ! 0 = 1 / 2"
    by (simp add: update_extra_state_def tiny_marked_full_sample Let_def)
       (simp add: tiny_marked_def tiny_warm_def tiny_renderer_def combine_cell_def)
  moreover have "density_grid tiny_marked ! 0 ! 0 = - 1" by (simp add: tiny_marked_def)
  ultimately show ?thesis using tiny_warm_mark by blast
qed

section \<open>Properties of the transmittance weights\<close>

lemma float_modelD:
  assumes "float_model fa u h"
  shows "0 \<le> u" "0 \<le> h" "rnd fa 0 = 0" "rnd fa 1 = 1"
    and "\<And>x y. x \<le> y \<Longrightarrow> rnd fa x \<le> rnd fa y"
    and "\<And>x. rnd fa (rnd fa x) = rnd fa x"
    and "\<And>x. 0 \<le> x \<Longrightarrow> rnd fa x \<le> (1 + u) * x + h"
    and "torch_exp fa 0 = 1"
    and "\<And>x. x \<le> 0 \<Longrightarrow> 0 \<le> torch_exp fa x \<and> torch_exp fa x \<le> 1"
  using assms unfolding float_model_def by blast+

lemma rnd_nonneg: "float_model fa u h \<Longrightarrow> 0 \<le> x \<Longrightarrow> 0 \<le> rnd fa x"
  using float_modelD(3,5)[of fa u h] by metis

lemma rnd_nonpos: "float_model fa u h \<Longrightarrow> x \<le> 0 \<Longrightarrow> rnd fa x \<le> 0"
  using float_modelD(3,5)[of fa u h] by metis

lemma rnd_le_1: "float_model fa u h \<Longrightarrow> x \<le> 1 \<Longrightarrow> rnd fa x \<le> 1"
  using float_modelD(4,5)[of fa u h] by metis

lemma rnd_ge_1: "float_model fa u h \<Longrightarrow> 1 \<le> x \<Longrightarrow> 1 \<le> rnd fa x"
  using float_modelD(4,5)[of fa u h] by metis

lemma cumprod_from_length: "length (cumprod_from fa T xs) = length xs"
  by (induction xs arbitrary: T) auto

lemma zip_butlast_longer:
  "length ys = Suc (length xs) \<Longrightarrow> zip xs (butlast ys) = zip xs ys"
  by (induction xs arbitrary: ys) (auto simp: zip_Cons1 split: list.splits)

lemma weights_of_alphas_eq:
  "weights_of_alphas fa as =
     map2 (\<lambda>a T. rnd fa (a * T)) as
       (1 # cumprod_from fa 1 (map (\<lambda>a. rnd fa (rnd fa (1 - a) + rnd fa (1 / 10 ^ 15))) as))"
proof (cases as)
  case Nil
  then show ?thesis by (simp add: weights_of_alphas_def cumprod_def)
next
  case (Cons a as')
  let ?f = "\<lambda>a. rnd fa (rnd fa (1 - a) + rnd fa (1 / 10 ^ 15))"
  have "zip as (butlast (1 # cumprod_from fa 1 (map ?f as)))
        = zip as (1 # cumprod_from fa 1 (map ?f as))"
    by (rule zip_butlast_longer) (simp add: cumprod_from_length)
  then show ?thesis using Cons by (simp add: weights_of_alphas_def cumprod_def)
qed

text \<open>
  The sum of the weights as one loop over the samples: \<open>S\<close> is the sum so far, \<open>P\<close> the
  transmittance so far.
\<close>

lemma weights_step:
  "foldl (\<lambda>acc x. rnd fa (acc + x)) S
     (map2 (\<lambda>a T. rnd fa (a * T)) (a # as) (P # cumprod_from fa P (map f (a # as)))) =
   foldl (\<lambda>acc x. rnd fa (acc + x)) (rnd fa (S + rnd fa (a * P)))
     (map2 (\<lambda>a T. rnd fa (a * T)) as
        (rnd fa (P * f a) # cumprod_from fa (rnd fa (P * f a)) (map f as)))"
  by (cases as) simp_all


lemma weights_step_bound:
  fixes S P a u h :: real
  assumes M: "float_model fa u h" and S: "0 \<le> S" and P: "0 \<le> P" and a: "0 \<le> a" "a \<le> 1"
  shows "rnd fa (S + rnd fa (a * P))
           + rnd fa (P * rnd fa (rnd fa (1 - a) + rnd fa (1 / 10 ^ 15)))
         \<le> ((1 + u) ^ 3 + (1 + u) * ((1 + u) * rnd fa (1 / 10 ^ 15) + (2 + u) * h)) * (S + P)
             + (3 + u) * h"
proof -
  define K where "K = 1 + u"
  define e where "e = rnd fa (1 / 10 ^ 15)"
  define c where "c = K * e + (K + 1) * h"
  define r where "r = rnd fa (1 - a)"
  define f where "f = rnd fa (r + e)"
  define w where "w = rnd fa (a * P)"
  define X where "X = a * P"
  define Y where "Y = P * (1 - a)"
  note D = float_modelD[OF M]
  have K: "1 \<le> K" "0 \<le> K" using D(1) by (simp_all add: K_def)
  have h: "0 \<le> h" by (rule D(2))
  have e: "0 \<le> e" unfolding e_def by (rule rnd_nonneg[OF M]) simp
  have c: "0 \<le> c" unfolding c_def using K e h by simp
  have X: "0 \<le> X" unfolding X_def using a P by simp
  have Y: "0 \<le> Y" unfolding Y_def using a P by simp
  have XY: "X + Y = P" unfolding X_def Y_def by (simp add: algebra_simps)
  have r0: "0 \<le> r" unfolding r_def using a by (intro rnd_nonneg[OF M]) simp
  have r1: "r \<le> K * (1 - a) + h" unfolding r_def K_def using a by (intro D(7)) simp
  have f1: "f \<le> K * (r + e) + h" unfolding f_def K_def using r0 e by (intro D(7)) simp
  have "K * (r + e) \<le> K * (K * (1 - a) + h + e)"
    using r1 K(2) by (intro mult_left_mono) auto
  with f1 have f2: "f \<le> K * K * (1 - a) + c" by (simp add: c_def algebra_simps)
  have f0: "0 \<le> f" unfolding f_def using r0 e by (intro rnd_nonneg[OF M]) simp
  have w0: "0 \<le> w" unfolding w_def using X by (intro rnd_nonneg[OF M]) (simp add: X_def)
  have w1: "w \<le> K * X + h" unfolding w_def X_def K_def using X by (intro D(7)) (simp add: X_def)
  have S1: "rnd fa (S + w) \<le> K * (S + w) + h" unfolding K_def using S w0 by (intro D(7)) simp
  have "K * (S + w) \<le> K * (S + (K * X + h))" using w1 K(2) by (intro mult_left_mono) auto
  with S1 have S2: "rnd fa (S + w) \<le> K * S + K * K * X + K * h + h" by (simp add: algebra_simps)
  have P1: "rnd fa (P * f) \<le> K * (P * f) + h" unfolding K_def using P f0 by (intro D(7)) simp
  have "P * f \<le> P * (K * K * (1 - a) + c)" by (rule mult_left_mono[OF f2 P])
  then have "K * (P * f) \<le> K * (P * (K * K * (1 - a) + c))"
    by (rule mult_left_mono[OF _ K(2)])
  also have "\<dots> = K * K * K * Y + K * c * P" by (simp add: Y_def algebra_simps)
  finally have P2: "rnd fa (P * f) \<le> K * K * K * Y + K * c * P + h" using P1 by simp
  have KK: "K \<le> K * K * K" "K * K \<le> K * K * K"
  proof -
    have 1: "1 \<le> K * K" using K(1) mult_mono[of 1 K 1 K] by simp
    then show "K \<le> K * K * K" using mult_left_mono[OF 1 K(2)] by (simp add: algebra_simps)
    show "K * K \<le> K * K * K" using mult_left_mono[OF K(1), of "K * K"] K(2) by simp
  qed
  have t1: "K * S \<le> K * K * K * S" using mult_right_mono[OF KK(1) S] .
  have t2: "K * K * X \<le> K * K * K * X" using mult_right_mono[OF KK(2) X] .
  have t3: "K * c * P \<le> K * c * (S + P)" using K(2) c S by (intro mult_left_mono) auto
  have "K * K * K * S + K * K * K * X + K * K * K * Y = K * K * K * (S + P)"
    unfolding XY[symmetric] by (simp add: algebra_simps)
  with S2 P2 t1 t2 t3
  have "rnd fa (S + w) + rnd fa (P * f) \<le> K * K * K * (S + P) + K * c * (S + P) + (K + 2) * h"
    by (simp add: algebra_simps)
  then show ?thesis
    unfolding w_def f_def r_def c_def e_def K_def
    by (simp add: algebra_simps power3_eq_cube)
qed


lemma weights_loop_bounds:
  fixes u h :: real
  assumes M: "float_model fa u h"
  defines "f \<equiv> \<lambda>a. rnd fa (rnd fa (1 - a) + rnd fa (1 / 10 ^ 15))"
  defines "A \<equiv> (1 + u) ^ 3 + (1 + u) * ((1 + u) * rnd fa (1 / 10 ^ 15) + (2 + u) * h)"
  defines "B \<equiv> (3 + u) * h"
  assumes as: "\<forall>a\<in>set as. 0 \<le> a \<and> a \<le> 1" and S: "0 \<le> S" "rnd fa S = S" and P: "0 \<le> P"
  shows "S \<le> foldl (\<lambda>acc x. rnd fa (acc + x)) S
                (map2 (\<lambda>a T. rnd fa (a * T)) as (P # cumprod_from fa P (map f as)))
       \<and> foldl (\<lambda>acc x. rnd fa (acc + x)) S
                (map2 (\<lambda>a T. rnd fa (a * T)) as (P # cumprod_from fa P (map f as)))
           \<le> A ^ length as * (S + P + real (length as) * B)"
  using as S P
proof (induction as arbitrary: S P)
  case Nil
  then show ?case by simp
next
  case (Cons a as)
  note D = float_modelD[OF M]
  let ?W = "\<lambda>S P as. foldl (\<lambda>acc x. rnd fa (acc + x)) S
                (map2 (\<lambda>a T. rnd fa (a * T)) as (P # cumprod_from fa P (map f as)))"
  let ?S' = "rnd fa (S + rnd fa (a * P))"
  let ?P' = "rnd fa (P * f a)"
  have a: "0 \<le> a" "a \<le> 1" using Cons.prems(1) by auto
  have rest: "\<forall>a\<in>set as. 0 \<le> a \<and> a \<le> 1" using Cons.prems(1) by simp
  have e: "0 \<le> rnd fa (1 / 10 ^ 15)" by (rule rnd_nonneg[OF M]) simp
  have A1: "1 \<le> A"
  proof -
    have "1 \<le> (1 + u) ^ 3" using D(1) by (simp add: one_le_power)
    moreover have "0 \<le> (1 + u) * ((1 + u) * rnd fa (1 / 10 ^ 15) + (2 + u) * h)"
      using D(1,2) e by simp
    ultimately show ?thesis unfolding A_def by linarith
  qed
  have B0: "0 \<le> B" unfolding B_def using D(1,2) by simp
  have w0: "0 \<le> rnd fa (a * P)" using a Cons.prems(4) by (intro rnd_nonneg[OF M]) simp
  have "rnd fa S \<le> ?S'" using w0 by (intro D(5)) simp
  then have SS': "S \<le> ?S'" using Cons.prems(3) by simp
  then have S'0: "0 \<le> ?S'" using Cons.prems(2) by simp
  have S'f: "rnd fa ?S' = ?S'" by (rule D(6))
  have f0: "0 \<le> f a" unfolding f_def using a e by (intro rnd_nonneg[OF M] add_nonneg_nonneg) simp_all
  have P'0: "0 \<le> ?P'" using Cons.prems(4) f0 by (intro rnd_nonneg[OF M]) simp
  have step: "?W S P (a # as) = ?W ?S' ?P' as" by (rule weights_step)
  have IH: "?S' \<le> ?W ?S' ?P' as" "?W ?S' ?P' as \<le> A ^ length as * (?S' + ?P' + real (length as) * B)"
    using Cons.IH[OF rest S'0 S'f P'0] by auto
  have sb: "?S' + ?P' \<le> A * (S + P) + B"
    using weights_step_bound[OF M Cons.prems(2,4) a] unfolding f_def A_def B_def .
  have An: "0 \<le> A ^ length as" using A1 by simp
  have nB: "0 \<le> real (length as) * B + B" using B0 by simp
  have "?S' + ?P' + real (length as) * B \<le> A * (S + P) + (real (length as) * B + B)"
    using sb by linarith
  also have "\<dots> \<le> A * (S + P) + A * (real (length as) * B + B)"
    using mult_right_mono[OF A1 nB] by simp
  also have "\<dots> = A * (S + P + real (length (a # as)) * B)" by (simp add: algebra_simps)
  finally have "A ^ length as * (?S' + ?P' + real (length as) * B)
      \<le> A ^ length as * (A * (S + P + real (length (a # as)) * B))"
    by (rule mult_left_mono[OF _ An])
  also have "\<dots> = A ^ length (a # as) * (S + P + real (length (a # as)) * B)" by simp
  finally have "?W ?S' ?P' as \<le> A ^ length (a # as) * (S + P + real (length (a # as)) * B)"
    using IH(2) by linarith
  moreover have "S \<le> ?W ?S' ?P' as" using SS' IH(1) by linarith
  ultimately show ?case unfolding step by blast
qed

lemma weights_loop_zero_iff:
  fixes u h :: real
  assumes M: "float_model fa u h"
  defines "f \<equiv> \<lambda>a. rnd fa (rnd fa (1 - a) + rnd fa (1 / 10 ^ 15))"
  assumes as: "\<forall>a\<in>set as. 0 \<le> a \<and> a \<le> 1 \<and> rnd fa a = a"
    and S: "0 \<le> S" "rnd fa S = S" and P: "1 \<le> P"
  shows "foldl (\<lambda>acc x. rnd fa (acc + x)) S
           (map2 (\<lambda>a T. rnd fa (a * T)) as (P # cumprod_from fa P (map f as))) = 0
         \<longleftrightarrow> S = 0 \<and> (\<forall>a\<in>set as. a = 0)"
  using as S P
proof (induction as arbitrary: S P)
  case Nil
  then show ?case by simp
next
  case (Cons a as)
  note D = float_modelD[OF M]
  let ?W = "\<lambda>S P as. foldl (\<lambda>acc x. rnd fa (acc + x)) S
                (map2 (\<lambda>a T. rnd fa (a * T)) as (P # cumprod_from fa P (map f as)))"
  let ?S' = "rnd fa (S + rnd fa (a * P))"
  let ?P' = "rnd fa (P * f a)"
  have a: "0 \<le> a" "a \<le> 1" "rnd fa a = a" using Cons.prems(1) by auto
  have rest: "\<forall>a\<in>set as. 0 \<le> a \<and> a \<le> 1 \<and> rnd fa a = a" using Cons.prems(1) by simp
  have rest': "\<forall>a\<in>set as. 0 \<le> a \<and> a \<le> 1" using rest by blast
  have P0: "0 \<le> P" using Cons.prems(4) by simp
  have e: "0 \<le> rnd fa (1 / 10 ^ 15)" by (rule rnd_nonneg[OF M]) simp
  have f0: "0 \<le> f a" unfolding f_def using a e by (intro rnd_nonneg[OF M] add_nonneg_nonneg) simp_all
  have P'0: "0 \<le> ?P'" using P0 f0 by (intro rnd_nonneg[OF M]) simp
  have w0: "0 \<le> rnd fa (a * P)" using a P0 by (intro rnd_nonneg[OF M]) simp
  have "rnd fa S \<le> ?S'" using w0 by (intro D(5)) simp
  then have SS': "S \<le> ?S'" using Cons.prems(3) by simp
  then have S'0: "0 \<le> ?S'" using Cons.prems(2) by simp
  have S'f: "rnd fa ?S' = ?S'" by (rule D(6))
  have step: "?W S P (a # as) = ?W ?S' ?P' as" by (rule weights_step)
  show ?case
  proof (cases "a = 0")
    case True
    have S': "?S' = S" using True D(3) Cons.prems(3) by simp
    have "f 0 = rnd fa (1 + rnd fa (1 / 10 ^ 15))" by (simp add: f_def D(4))
    moreover have "1 \<le> rnd fa (1 + rnd fa (1 / 10 ^ 15))" using e by (intro rnd_ge_1[OF M]) simp
    ultimately have f1: "1 \<le> f a" using True by simp
    have "1 * 1 \<le> P * f a" using Cons.prems(4) f1 by (intro mult_mono) auto
    then have P'1: "1 \<le> ?P'" by (intro rnd_ge_1[OF M]) simp
    have "?W ?S' ?P' as = 0 \<longleftrightarrow> ?S' = 0 \<and> (\<forall>a\<in>set as. a = 0)"
      by (rule Cons.IH[OF rest S'0 S'f P'1])
    then show ?thesis unfolding step using S' True by simp
  next
    case False
    then have apos: "0 < a" using a(1) by simp
    have "a * 1 \<le> a * P" using Cons.prems(4) a(1) by (intro mult_left_mono) auto
    then have "rnd fa a \<le> rnd fa (a * P)" by (intro D(5)) simp
    then have wa: "a \<le> rnd fa (a * P)" using a(3) by simp
    have "rnd fa (rnd fa (a * P)) \<le> ?S'" using Cons.prems(2) by (intro D(5)) simp
    then have "rnd fa (a * P) \<le> ?S'" by (simp add: D(6))
    with wa apos have S'pos: "0 < ?S'" by linarith
    have "?S' \<le> ?W ?S' ?P' as"
      using weights_loop_bounds[OF M rest' S'0 S'f P'0] unfolding f_def by blast
    with S'pos have "?W ?S' ?P' as \<noteq> 0" by linarith
    then show ?thesis unfolding step using False by simp
  qed
qed


lemma deltas_of_length:
  "length (deltas_of fa z sd) = (if 2 \<le> length z then length z else 0)"
  by (cases z; cases "tl z") (auto simp: deltas_of_def Let_def)

lemma sorted_differences_nonneg:
  assumes M: "float_model fa u h" and "sorted z"
    and "d \<in> set (map2 (\<lambda>a b. rnd fa (a - b)) (tl z) (butlast z))"
  shows "0 \<le> d"
proof -
  from assms(3) obtain a b where ab: "(a, b) \<in> set (zip (tl z) (butlast z))"
    and d: "d = rnd fa (a - b)"
    by auto
  from ab obtain i where i: "i < length (tl z)" "i < length (butlast z)"
    and a: "a = tl z ! i" and b: "b = butlast z ! i"
    by (auto simp: in_set_zip)
  have "b = z ! i" using b i by (simp add: nth_butlast)
  moreover have "a = z ! Suc i" using a i by (simp add: nth_tl)
  moreover have "z ! i \<le> z ! Suc i"
    using assms(2) i by (intro sorted_nth_mono) auto
  ultimately have "0 \<le> a - b" by simp
  then show ?thesis unfolding d by (rule rnd_nonneg[OF M])
qed

lemma deltas_of_nonneg:
  assumes M: "float_model fa u h" and "sorted z" "0 \<le> sd" "d \<in> set (deltas_of fa z sd)"
  shows "0 \<le> d"
proof -
  have "0 \<le> rnd fa (sd * 1)" using assms(3) by (intro rnd_nonneg[OF M]) simp
  then show ?thesis
    using assms(4) sorted_differences_nonneg[OF M assms(2)]
    by (auto simp: deltas_of_def Let_def dest: in_set_takeD)
qed

lemma alphas_of_eq:
  assumes "length sigmas = length z"
  shows "alphas_of fa (deltas_of fa z sd) scale sigmas =
           Inr (map2 (alpha_of fa scale) (deltas_of fa z sd) sigmas)"
proof (cases "2 \<le> length z")
  case True
  then show ?thesis using assms by (simp add: alphas_of_def broadcast2_def deltas_of_length)
next
  case False
  then have e: "deltas_of fa z sd = []" using deltas_of_length[of fa z sd] by simp
  from False have "length sigmas = 0 \<or> length sigmas = 1" using assms by linarith
  then show ?thesis by (auto simp: alphas_of_def broadcast2_def e)
qed

lemma alpha_of_range:
  assumes M: "float_model fa u h" and "0 \<le> d" "0 \<le> scale" "0 \<le> s"
  shows "0 \<le> alpha_of fa scale d s" "alpha_of fa scale d s \<le> 1"
    and "rnd fa (alpha_of fa scale d s) = alpha_of fa scale d s"
proof -
  note D = float_modelD[OF M]
  let ?x = "rnd fa (rnd fa (- d * scale) * s)"
  have "- d * scale \<le> 0" using assms(2,3) by (simp add: mult_nonneg_nonneg)
  then have "rnd fa (- d * scale) \<le> 0" by (rule rnd_nonpos[OF M])
  then have "rnd fa (- d * scale) * s \<le> 0" using assms(4) by (simp add: mult_nonpos_nonneg)
  then have "?x \<le> 0" by (rule rnd_nonpos[OF M])
  then have E: "0 \<le> torch_exp fa ?x" "torch_exp fa ?x \<le> 1" using D(9) by blast+
  show "0 \<le> alpha_of fa scale d s" unfolding alpha_of_def using E by (intro rnd_nonneg[OF M]) simp
  show "alpha_of fa scale d s \<le> 1" unfolding alpha_of_def using E by (intro rnd_le_1[OF M]) simp
  show "rnd fa (alpha_of fa scale d s) = alpha_of fa scale d s" unfolding alpha_of_def by (rule D(6))
qed

lemma alpha_of_zero_sigma:
  assumes M: "float_model fa u h"
  shows "alpha_of fa scale d 0 = 0"
  using float_modelD(3,8)[OF M] by (simp add: alpha_of_def)

lemma torch_sum_weights:
  "torch_sum fa (weights_of_alphas fa as) =
     foldl (\<lambda>acc x. rnd fa (acc + x)) 0
       (map2 (\<lambda>a T. rnd fa (a * T)) as
          (1 # cumprod_from fa 1 (map (\<lambda>a. rnd fa (rnd fa (1 - a) + rnd fa (1 / 10 ^ 15))) as)))"
  by (simp only: torch_sum_def weights_of_alphas_eq)

text \<open>
  Claim C2, as the code has it. For a ray whose \<open>z_vals\<close> are sorted (as they are after the
  merge), with a non-negative \<open>sample_dist\<close> and density scale and non-negative densities,
  in every float arithmetic that meets \<open>float_model\<close> with unit roundoff \<open>u\<close> and underflow
  unit \<open>h\<close>: the weights are computed without error; their sum is non-negative and at most
  \<open>A\<^sup>T * (1 + T * (3 + u) * h)\<close> for \<open>T\<close> samples, where
  \<open>A = (1 + u)\<^sup>3 + (1 + u) * ((1 + u) * rnd 1e-15 + (2 + u) * h)\<close>, which is 1 up to the
  rounding of the three operations per sample and the epsilon of the recurrence (in
  exact arithmetic it is \<open>(1 + 10\<^sup>-\<^sup>1\<^sup>5)\<^sup>T\<close>); and the sum is 0 exactly when every \<open>alpha\<close> that
  line 246 computes is 0. Every \<open>alpha\<close> is 0 when every \<open>sigma\<close> is 0; the converse does not
  hold, as an \<open>alpha\<close> is also 0 where the interval has length 0 and where \<open>torch.exp\<close> returns
  the float 1.
\<close>

theorem weights_sum_bounded:
  assumes "float_model fa u h"
    and "sorted z_vals" and "0 \<le> sample_dist" and "0 \<le> scale"
    and "\<forall>s\<in>set sigmas. 0 \<le> s" and "length sigmas = length z_vals"
  shows "\<exists>alphas weights_sum.
           alphas_of fa (deltas_of fa z_vals sample_dist) scale sigmas = Inr alphas
           \<and> weights_sum_of fa z_vals sample_dist scale sigmas = Inr weights_sum
           \<and> 0 \<le> weights_sum
           \<and> weights_sum \<le>
               ((1 + u) ^ 3 + (1 + u) * ((1 + u) * rnd fa (1 / 10 ^ 15) + (2 + u) * h))
                 ^ length z_vals
               * (1 + real (length z_vals) * ((3 + u) * h))
           \<and> (weights_sum = 0 \<longleftrightarrow> list_all (\<lambda>a. a = 0) alphas)
           \<and> (list_all (\<lambda>s. s = 0) sigmas \<longrightarrow> weights_sum = 0)"
proof -
  note M = assms(1)
  note D = float_modelD[OF M]
  let ?ds = "deltas_of fa z_vals sample_dist"
  let ?as = "map2 (alpha_of fa scale) ?ds sigmas"
  let ?ws = "torch_sum fa (weights_of_alphas fa ?as)"
  let ?A = "(1 + u) ^ 3 + (1 + u) * ((1 + u) * rnd fa (1 / 10 ^ 15) + (2 + u) * h)"
  let ?B = "(3 + u) * h"
  let ?n = "length ?as"
  let ?T = "length z_vals"
  have range: "\<forall>a\<in>set ?as. 0 \<le> a \<and> a \<le> 1 \<and> rnd fa a = a"
  proof
    fix a assume "a \<in> set ?as"
    then obtain d s where m: "(d, s) \<in> set (zip ?ds sigmas)" and a: "a = alpha_of fa scale d s"
      by auto
    from m have "d \<in> set ?ds" "s \<in> set sigmas" by (auto dest: set_zip_leftD set_zip_rightD)
    then have "0 \<le> d" "0 \<le> s" using deltas_of_nonneg[OF M assms(2,3)] assms(5) by auto
    from alpha_of_range[OF M this(1) assms(4) this(2)]
    show "0 \<le> a \<and> a \<le> 1 \<and> rnd fa a = a" unfolding a by blast
  qed
  then have range': "\<forall>a\<in>set ?as. 0 \<le> a \<and> a \<le> 1" by blast
  have al: "alphas_of fa ?ds scale sigmas = Inr ?as" by (rule alphas_of_eq[OF assms(6)])
  have run: "weights_sum_of fa z_vals sample_dist scale sigmas = Inr ?ws"
    by (simp add: weights_sum_of_def weights_of_def al)
  have b: "0 \<le> ?ws" "?ws \<le> ?A ^ ?n * (0 + 1 + real ?n * ?B)"
    unfolding torch_sum_weights
    using weights_loop_bounds[OF M range', of 0 1] D(3) by simp_all
  have e: "0 \<le> rnd fa (1 / 10 ^ 15)" by (rule rnd_nonneg[OF M]) simp
  have A1: "1 \<le> ?A"
  proof -
    have "1 \<le> (1 + u) ^ 3" using D(1) by (simp add: one_le_power)
    moreover have "0 \<le> (1 + u) * ((1 + u) * rnd fa (1 / 10 ^ 15) + (2 + u) * h)"
      using D(1,2) e by simp
    ultimately show ?thesis by linarith
  qed
  have B0: "0 \<le> ?B" using D(1,2) by simp
  have nT: "?n \<le> ?T" using assms(6) by simp
  have p: "?A ^ ?n \<le> ?A ^ ?T" using A1 nT by (rule power_increasing[rotated])
  have "real ?n * ?B \<le> real ?T * ?B" using nT B0 by (intro mult_right_mono) auto
  then have q: "0 + 1 + real ?n * ?B \<le> 1 + real ?T * ?B" by simp
  have "?A ^ ?n * (0 + 1 + real ?n * ?B) \<le> ?A ^ ?T * (1 + real ?T * ?B)"
    using p q A1 B0 by (intro mult_mono) auto
  with b(2) have ub: "?ws \<le> ?A ^ ?T * (1 + real ?T * ?B)" by linarith
  have z: "?ws = 0 \<longleftrightarrow> list_all (\<lambda>a. a = 0) ?as"
    unfolding torch_sum_weights
    using weights_loop_zero_iff[OF M range, of 0 1] D(3) by (simp add: list_all_iff)
  have "list_all (\<lambda>s. s = 0) sigmas \<longrightarrow> list_all (\<lambda>a. a = 0) ?as"
    using alpha_of_zero_sigma[OF M] by (fastforce simp: list_all_iff dest: set_zip_rightD)
  then have "list_all (\<lambda>s. s = 0) sigmas \<longrightarrow> ?ws = 0" using z by blast
  with al run b(1) ub z show ?thesis by blast
qed

lemma exact_arith_model: "float_model exact_arith 0 0"
  by (simp add: float_model_def exact_arith_def)

theorem weights_sum_bounded_witness:
  "weights_sum_of exact_arith [0, 1] 1 1 [0, 0] = Inr 0
   \<and> (\<exists>w. weights_sum_of exact_arith [0, 1, 2] 1 1 [0, 1, 0] = Inr w \<and> 0 < w
          \<and> w \<le> (1 + 1 / 10 ^ 15) ^ length [0, 1, 2 :: real])"
proof -
  have s: "sorted [0, 1 :: real]" "sorted [0, 1, 2 :: real]" by simp_all
  from weights_sum_bounded[OF exact_arith_model s(1), of 1 1 "[0, 0]"]
  have a: "weights_sum_of exact_arith [0, 1] 1 1 [0, 0] = Inr 0" by auto
  from weights_sum_bounded[OF exact_arith_model s(2), of 1 1 "[0, 1, 0]"]
  obtain w alphas where w: "weights_sum_of exact_arith [0, 1, 2] 1 1 [0, 1, 0] = Inr w" "0 \<le> w"
    "w \<le> ((1 + 0) ^ 3 + (1 + 0) * ((1 + 0) * rnd exact_arith (1 / 10 ^ 15) + (2 + 0) * 0))
            ^ length [0, 1, 2 :: real] * (1 + real (length [0, 1, 2 :: real]) * ((3 + 0) * 0))"
    "w = 0 \<longleftrightarrow> list_all (\<lambda>a. a = 0) alphas"
    "alphas_of exact_arith (deltas_of exact_arith [0, 1, 2] 1) 1 [0, 1, 0] = Inr alphas"
    by force
  from w(5) have "alphas = [0, 1 - exp (- 1), 0]"
    by (simp add: alphas_of_def broadcast2_def deltas_of_def alpha_of_def exact_arith_def)
  with w(4) have "w \<noteq> 0" by simp
  with w(2) have "0 < w" by simp
  moreover have "w \<le> (1 + 1 / 10 ^ 15) ^ length [0, 1, 2 :: real]"
    using w(3) by (simp add: exact_arith_def)
  ultimately show ?thesis using w(1) a by blast
qed

text \<open>
  Claim C2, as it is stated, fails in the direction from \<open>weight_sum = 0\<close> to
  \<open>sigma = 0\<close>: a ray whose samples all lie at the same distance (its entry and exit
  distance coincide, as for a ray that misses the bound) has intervals of length 0,
  every \<open>alpha\<close> is \<open>1 - exp 0 = 0\<close>, and the sum is 0 although every density is 1. No
  operation of this run rounds.
\<close>

theorem zero_length_intervals_give_zero_weight:
  "weights_sum_of exact_arith [2, 2, 2] 0 1 [1, 1, 1] = Inr 0
   \<and> \<not> list_all (\<lambda>s. s = 0) [1, 1, 1 :: real]"
  by (simp add: weights_sum_of_def weights_of_def alphas_of_def broadcast2_def deltas_of_def
        alpha_of_def weights_of_alphas_def cumprod_def torch_sum_def exact_arith_def)

text \<open>
  The same happens with positive intervals and densities where the exponential rounds to
  1, as the float \<open>torch.exp\<close> does for arguments close to 0 (here from \<open>-10\<^sup>-\<^sup>8\<close> on):
\<close>

lemma near_one_exp_model:
  "float_model \<lparr>rnd = (\<lambda>x. x), torch_exp = (\<lambda>x. if - (1 / 10 ^ 8) \<le> x then 1 else exp x)\<rparr> 0 0"
  by (simp add: float_model_def)

lemma rounded_exp_gives_zero_weight:
  "weights_sum_of
     \<lparr>rnd = (\<lambda>x. x), torch_exp = (\<lambda>x. if - (1 / 10 ^ 8) \<le> x then 1 else exp x)\<rparr>
     [0, 1] 1 1 [1 / 10 ^ 9, 1 / 10 ^ 9] = Inr 0"
  by (simp add: weights_sum_of_def weights_of_def alphas_of_def broadcast2_def deltas_of_def
        alpha_of_def weights_of_alphas_def cumprod_def torch_sum_def)

text \<open>
  An arithmetic that does round: every result is taken to the nearest multiple of
  \<open>2\<^sup>-\<^sup>1\<^sup>0\<close>. It meets \<open>float_model\<close> with \<open>u = 0\<close> and \<open>h = 2\<^sup>-\<^sup>1\<^sup>1\<close>, and in it the exponent
  \<open>-delta * sigma = -2\<^sup>-\<^sup>1\<^sup>2\<close> of a positive interval and a positive density rounds to 0, so
  every \<open>alpha\<close> and the sum of the weights are 0.
\<close>

lemma fixed_point_model:
  "float_model
     \<lparr>rnd = (\<lambda>x. of_int \<lfloor>x * 1024 + 1 / 2\<rfloor> / 1024),
      torch_exp = (\<lambda>x. of_int \<lfloor>exp x * 1024 + 1 / 2\<rfloor> / 1024)\<rparr> 0 (1 / 2048)"
proof -
  let ?r = "\<lambda>x::real. of_int \<lfloor>x * 1024 + 1 / 2\<rfloor> / (1024::real)"
  have mono: "?r x \<le> ?r y" if "x \<le> y" for x y
  proof -
    have "\<lfloor>x * 1024 + 1 / 2\<rfloor> \<le> \<lfloor>y * 1024 + 1 / 2\<rfloor>" using that by (intro floor_mono) simp
    then show ?thesis by (simp add: divide_right_mono)
  qed
  have idem: "?r (?r x) = ?r x" for x
  proof -
    have "\<lfloor>of_int \<lfloor>x * 1024 + 1 / 2\<rfloor> + (1 / 2 :: real)\<rfloor> = \<lfloor>x * 1024 + 1 / 2\<rfloor>" by linarith
    then show ?thesis by simp
  qed
  have err: "?r x \<le> (1 + 0) * x + 1 / 2048" for x
  proof -
    have "of_int \<lfloor>x * 1024 + 1 / 2\<rfloor> \<le> x * 1024 + 1 / 2" by (rule of_int_floor_le)
    then show ?thesis by (simp add: field_simps)
  qed
  have r0: "?r 0 = 0" by simp
  have r1: "?r 1 = 1" by simp
  have ex: "0 \<le> ?r (exp x) \<and> ?r (exp x) \<le> 1" if "x \<le> 0" for x
  proof -
    have "0 \<le> exp x" "exp x \<le> 1" using that by simp_all
    then have "?r 0 \<le> ?r (exp x)" "?r (exp x) \<le> ?r 1" by (intro mono; simp)+
    then show ?thesis unfolding r0 r1 by simp
  qed
  show ?thesis
    unfolding float_model_def
    using mono idem err ex by (simp del: of_int_floor_cancel)
qed

lemma product_rounded_to_zero_gives_zero_weight:
  "weights_sum_of
     \<lparr>rnd = (\<lambda>x. of_int \<lfloor>x * 1024 + 1 / 2\<rfloor> / 1024),
      torch_exp = (\<lambda>x. of_int \<lfloor>exp x * 1024 + 1 / 2\<rfloor> / 1024)\<rparr>
     [0, 1] 1 1 [1 / 4096, 1 / 4096] = Inr 0"
  by (simp add: weights_sum_of_def weights_of_def alphas_of_def broadcast2_def deltas_of_def
        alpha_of_def weights_of_alphas_def cumprod_def torch_sum_def)
section \<open>Properties of \<open>sample_pdf\<close>\<close>

lemma cumsum_from_length: "length (cumsum_from acc xs) = length xs"
  by (induction xs arbitrary: acc) auto

lemma cumsum_from_sorted:
  "\<forall>x\<in>set xs. 0 \<le> x \<Longrightarrow> sorted (acc # cumsum_from acc xs)"
proof (induction xs arbitrary: acc)
  case Nil
  then show ?case by simp
next
  case (Cons x xs)
  then have s: "sorted ((acc + x) # cumsum_from (acc + x) xs)" by simp
  then have "\<forall>y\<in>set (cumsum_from (acc + x) xs). acc + x \<le> y" by simp
  then have "\<forall>y\<in>set (cumsum_from (acc + x) xs). acc \<le> y" using Cons.prems by fastforce
  with s Cons.prems show ?case by simp
qed

lemma cumsum_from_last:
  "last (acc # cumsum_from acc xs) = acc + sum_list xs"
  by (induction xs arbitrary: acc) (auto simp: add.assoc)

lemma count_le_sorted:
  assumes "sorted xs"
  shows "(\<forall>i < length (filter (\<lambda>c. c \<le> u) xs). xs ! i \<le> (u::real))
       \<and> (\<forall>i. length (filter (\<lambda>c. c \<le> u) xs) \<le> i \<and> i < length xs \<longrightarrow> u < xs ! i)"
  using assms
proof (induction xs)
  case Nil
  then show ?case by simp
next
  case (Cons x xs)
  show ?case
  proof (cases "x \<le> u")
    case True
    with Cons show ?thesis by (auto simp: nth_Cons split: nat.splits)
  next
    case False
    with Cons.prems have "\<forall>y\<in>set xs. \<not> y \<le> u" by fastforce
    then have "filter (\<lambda>c. c \<le> u) xs = []" by (simp add: filter_empty_conv)
    with False Cons.prems show ?thesis by (auto simp: nth_Cons split: nat.splits)
       (metis nth_mem order.trans not_less)
  qed
qed


lemma sum_list_pos_real:
  "xs \<noteq> [] \<Longrightarrow> \<forall>x\<in>set xs. 0 < (x::real) \<Longrightarrow> 0 < sum_list xs"
proof (induction xs)
  case Nil
  then show ?case by simp
next
  case (Cons x xs)
  then show ?case by (cases xs) (auto intro: add_pos_pos)
qed

lemma sum_list_divide:
  "sum_list (map (\<lambda>w. w / c) ws) = sum_list ws / (c::real)"
  by (induction ws) (auto simp: add_divide_distrib)

lemma floor_sum_pos:
  assumes "weights \<noteq> []" "\<forall>w\<in>set weights. 0 \<le> (w::real)"
  shows "0 < sum_list (map (\<lambda>w. w + 1 / 100000) weights)"
proof -
  have "\<forall>x\<in>set (map (\<lambda>w. w + 1 / 100000) weights). 0 < x" using assms(2) by auto
  moreover have "map (\<lambda>w. w + 1 / 100000) weights \<noteq> []" using assms(1) by simp
  ultimately show ?thesis by (rule sum_list_pos_real[rotated])
qed

lemma pdf_cdf_props:
  assumes "weights \<noteq> []" "\<forall>w\<in>set weights. 0 \<le> w"
  shows "length (pdf_cdf weights) = Suc (length weights)"
    and "sorted (pdf_cdf weights)"
    and "pdf_cdf weights ! 0 = 0"
    and "last (pdf_cdf weights) = 1"
proof -
  let ?ws = "map (\<lambda>w. w + 1 / 100000) weights"
  let ?S = "sum_list ?ws"
  let ?pdf = "map (\<lambda>w. w / ?S) ?ws"
  have S: "0 < ?S" by (rule floor_sum_pos[OF assms])
  have ne: "cumsum_from 0 ?pdf \<noteq> []" using assms(1) by (cases weights) auto
  then have t: "map (\<lambda>_. 0) (take 1 (cumsum_from 0 ?pdf)) = [0::real]"
    by (cases "cumsum_from 0 ?pdf") auto
  have eq: "pdf_cdf weights = 0 # cumsum_from 0 ?pdf"
    using t by (simp add: pdf_cdf_def cumsum_def Let_def)
  have nonneg: "\<forall>x\<in>set ?pdf. 0 \<le> x" using S assms(2) by auto
  show "length (pdf_cdf weights) = Suc (length weights)" by (simp add: eq cumsum_from_length)
  show "sorted (pdf_cdf weights)" unfolding eq by (rule cumsum_from_sorted[OF nonneg])
  show "pdf_cdf weights ! 0 = 0" by (simp add: eq)
  have "sum_list ?pdf = ?S / ?S" by (rule sum_list_divide)
  then have "sum_list ?pdf = 1" using S by simp
  then show "last (pdf_cdf weights) = 1" unfolding eq cumsum_from_last by simp
qed


lemma bracket_of_quantile:
  assumes "weights \<noteq> []" "\<forall>w\<in>set weights. 0 \<le> w" "0 \<le> u" "u < 1"
  shows "\<exists>k. 1 \<le> k \<and> k \<le> length weights
           \<and> bracket (pdf_cdf weights) u = (int k - 1, int k)
           \<and> pdf_cdf weights ! (k - 1) \<le> u \<and> u < pdf_cdf weights ! k"
proof -
  let ?cdf = "pdf_cdf weights"
  let ?k = "searchsorted_right ?cdf u"
  note p = pdf_cdf_props[OF assms(1,2)]
  have c: "\<forall>i < ?k. ?cdf ! i \<le> u" "\<forall>i. ?k \<le> i \<and> i < length ?cdf \<longrightarrow> u < ?cdf ! i"
    using count_le_sorted[OF p(2), of u] by (auto simp: searchsorted_right_def)
  have kl: "?k \<le> length ?cdf" by (simp add: searchsorted_right_def)
  have k1: "1 \<le> ?k"
  proof (rule ccontr)
    assume "\<not> 1 \<le> ?k"
    then have "?k = 0" by simp
    with c(2) p(1) have "u < ?cdf ! 0" by simp
    with p(3) assms(3) show False by simp
  qed
  have kn: "?k \<le> length weights"
  proof (rule ccontr)
    assume "\<not> ?k \<le> length weights"
    with kl p(1) have "?k = length ?cdf" by simp
    with c(1) p(1) have "?cdf ! (length ?cdf - 1) \<le> u" by simp
    moreover have "?cdf \<noteq> []" using p(1) by auto
    ultimately have "last ?cdf \<le> u" by (simp add: last_conv_nth)
    with p(4) assms(4) show False by simp
  qed
  have "bracket ?cdf u = (int ?k - 1, int ?k)"
    using k1 kn p(1) by (simp add: bracket_def Let_def)
  moreover have "?cdf ! (?k - 1) \<le> u" using c(1) k1 by simp
  moreover have "u < ?cdf ! ?k" using c(2) kn p(1) by simp
  ultimately show ?thesis using k1 kn by blast
qed

lemma gather_nth: "i < length xs \<Longrightarrow> gather xs (int i) = Inr (xs ! i)"
  by (simp add: gather_def)

lemma gather_pred: "1 \<le> k \<Longrightarrow> k \<le> length xs \<Longrightarrow> gather xs (int k - 1) = Inr (xs ! (k - 1))"
  using gather_nth[of "k - 1" xs] by (simp add: of_nat_diff)

lemma sample_at_value:
  assumes "1 \<le> k" "k < length cdf" "length bins = length cdf"
    and "bracket cdf u = (int k - 1, int k)"
  shows "sample_at bins cdf u =
           Inr (bins ! (k - 1) +
                (u - cdf ! (k - 1)) /
                  (if cdf ! k - cdf ! (k - 1) < 1 / 100000 then 1 else cdf ! k - cdf ! (k - 1)) *
                (bins ! k - bins ! (k - 1)))"
  using assms
  by (simp add: sample_at_def gather_nth gather_pred Let_def)

lemma interpolate_range:
  fixes b0 b1 t :: real
  assumes "b0 \<le> b1" "0 \<le> t" "t \<le> 1"
  shows "b0 \<le> b0 + t * (b1 - b0)" "b0 + t * (b1 - b0) \<le> b1"
proof -
  have "0 \<le> t * (b1 - b0)" using assms by simp
  then show "b0 \<le> b0 + t * (b1 - b0)" by simp
  have "t * (b1 - b0) \<le> 1 * (b1 - b0)" using assms by (intro mult_right_mono) auto
  then show "b0 + t * (b1 - b0) \<le> b1" by simp
qed

lemma sample_at_in_range:
  assumes "weights \<noteq> []" "\<forall>w\<in>set weights. 0 \<le> w" "0 \<le> u" "u < 1"
    and "sorted bins" "length bins = Suc (length weights)"
  shows "\<exists>s. sample_at bins (pdf_cdf weights) u = Inr s \<and> hd bins \<le> s \<and> s \<le> last bins"
proof -
  let ?cdf = "pdf_cdf weights"
  note p = pdf_cdf_props[OF assms(1,2)]
  from bracket_of_quantile[OF assms(1-4)] obtain k where k: "1 \<le> k" "k \<le> length weights"
    and br: "bracket ?cdf u = (int k - 1, int k)"
    and lo: "?cdf ! (k - 1) \<le> u" and hi: "u < ?cdf ! k" by blast
  let ?d = "?cdf ! k - ?cdf ! (k - 1)"
  let ?den = "if ?d < 1 / 100000 then 1 else ?d"
  let ?t = "(u - ?cdf ! (k - 1)) / ?den"
  let ?s = "bins ! (k - 1) + ?t * (bins ! k - bins ! (k - 1))"
  have kc: "k < length ?cdf" using k p(1) by simp
  have val: "sample_at bins ?cdf u = Inr ?s"
    by (rule sample_at_value[OF k(1) kc _ br]) (simp add: assms(6) p(1))
  have dpos: "0 < ?d" using lo hi by simp
  have t0: "0 \<le> ?t" using lo dpos by simp
  have t1: "?t \<le> 1"
  proof (cases "?d < 1 / 100000")
    case True
    then show ?thesis using lo hi by simp
  next
    case False
    then show ?thesis using lo hi dpos by simp
  qed
  have kb: "k < length bins" using k assms(6) by simp
  have b: "bins ! (k - 1) \<le> bins ! k" using assms(5) kb by (intro sorted_nth_mono) auto
  have bne: "bins \<noteq> []" using kb by auto
  have "bins ! 0 \<le> bins ! (k - 1)" using assms(5) kb by (intro sorted_nth_mono) auto
  then have h: "hd bins \<le> bins ! (k - 1)" using bne by (simp add: hd_conv_nth)
  have l: "bins ! k \<le> last bins"
    using assms(5) kb bne by (simp add: last_conv_nth sorted_nth_mono)
  from interpolate_range[OF b t0 t1] h l have "hd bins \<le> ?s" "?s \<le> last bins" by linarith+
  with val show ?thesis by blast
qed


lemma linspace_quantiles_range:
  assumes "0 < n" "u \<in> set (linspace (0 + (1 / 2) / real n) (1 - (1 / 2) / real n) n)"
  shows "0 \<le> u \<and> u < 1"
proof (cases "n = 1")
  case True
  with assms(2) show ?thesis by (simp add: linspace_def)
next
  case False
  with assms(1) have n: "2 \<le> n" by simp
  define a where "a = (1 / 2) / real n"
  from assms(2) False obtain i where i: "i < n"
    and u: "u = (0 + a) + real i * (((1 - a) - (0 + a)) / (real n - 1))"
    by (auto simp: linspace_def a_def)
  have a: "0 < a" "a \<le> 1 / 4" using n by (simp_all add: a_def field_simps)
  define r where "r = real i / (real n - 1)"
  have r: "0 \<le> r" "r \<le> 1" using i n by (simp_all add: r_def field_simps)
  have u': "u = a + r * (1 - 2 * a)" unfolding u r_def by (simp add: field_simps)
  have w: "0 \<le> 1 - 2 * a" using a by simp
  define q where "q = r * (1 - 2 * a)"
  have q0: "0 \<le> q" unfolding q_def by (rule mult_nonneg_nonneg[OF r(1) w])
  have "r * (1 - 2 * a) \<le> 1 * (1 - 2 * a)" by (rule mult_right_mono[OF r(2) w])
  then have q1: "q \<le> 1 - 2 * a" by (simp add: q_def)
  have "0 \<le> a + q" "a + q < 1" using q0 q1 a by linarith+
  then show ?thesis unfolding u' q_def by simp
qed

lemma sequence_err_all:
  assumes "\<forall>x\<in>set xs. \<exists>y. f x = Inr y \<and> P y"
  shows "\<exists>ys. sequence_err (map f xs) = Inr ys \<and> length ys = length xs \<and> (\<forall>y\<in>set ys. P y)"
  using assms
proof (induction xs)
  case Nil
  then show ?case by simp
next
  case (Cons x xs)
  then obtain y ys where "f x = Inr y" "P y" "sequence_err (map f xs) = Inr ys"
    "length ys = length xs" "\<forall>y\<in>set ys. P y" by auto
  then show ?case by simp
qed

lemma sorted_Min_Max:
  assumes "sorted xs" "xs \<noteq> []"
  shows "Min (set xs) = hd (xs :: real list)" "Max (set xs) = last xs"
proof -
  have "\<forall>x\<in>set xs. hd xs \<le> x" using assms by (cases xs) auto
  then show "Min (set xs) = hd xs" using assms(2) by (intro Min_eqI) auto
  have "\<forall>x\<in>set xs. x \<le> last xs"
    using assms by (auto simp: in_set_conv_nth last_conv_nth intro!: sorted_nth_mono)
  then show "Max (set xs) = last xs" using assms(2) by (intro Max_eqI) auto
qed

lemma those_float_div:
  "S \<noteq> 0 \<Longrightarrow> those (map (\<lambda>w. float_div w S) ws) = Some (map (\<lambda>w. w / S) ws)"
  by (induction ws) (auto simp: float_div_def)

lemma pdf_of_finite:
  assumes "weights \<noteq> []" "\<forall>w\<in>set weights. 0 \<le> w"
  shows "pdf_of weights =
           Some (map (\<lambda>w. w / sum_list (map (\<lambda>w. w + 1 / 100000) weights))
                   (map (\<lambda>w. w + 1 / 100000) weights))"
proof -
  have "sum_list (map (\<lambda>w. w + 1 / 100000) weights) \<noteq> 0"
    using floor_sum_pos[OF assms] by simp
  then show ?thesis unfolding pdf_of_def Let_def by (rule those_float_div)
qed

lemma pdf_cdf_of_pdf:
  assumes "weights \<noteq> []"
  shows "pdf_cdf weights =
           0 # cumsum (map (\<lambda>w. w / sum_list (map (\<lambda>w. w + 1 / 100000) weights))
                   (map (\<lambda>w. w + 1 / 100000) weights))"
  using assms by (cases weights) (simp_all add: pdf_cdf_def cumsum_def Let_def)

lemma sum_list_member_le:
  "\<forall>x\<in>set xs. 0 \<le> (x::real) \<Longrightarrow> x \<in> set xs \<Longrightarrow> x \<le> sum_list xs"
  by (induction xs) (auto intro: add_increasing add_increasing2 sum_list_nonneg)

lemma pdf_entries_range:
  assumes "weights \<noteq> []" "\<forall>w\<in>set weights. 0 \<le> (w::real)"
  shows "\<forall>p\<in>set (map (\<lambda>w. w / sum_list (map (\<lambda>w. w + 1 / 100000) weights))
                   (map (\<lambda>w. w + 1 / 100000) weights)). 0 < p \<and> p \<le> 1"
proof -
  let ?ws = "map (\<lambda>w. w + 1 / 100000) weights"
  have S: "0 < sum_list ?ws" by (rule floor_sum_pos[OF assms])
  have pos: "\<forall>x\<in>set ?ws. 0 < x" using assms(2) by auto
  then have nn: "\<forall>x\<in>set ?ws. 0 \<le> x" by (auto intro: less_imp_le)
  have "\<forall>x\<in>set ?ws. x \<le> sum_list ?ws" using sum_list_member_le[OF nn] by blast
  with S pos show ?thesis by (auto simp: divide_le_eq)
qed

lemma sorted_between:
  assumes "sorted xs" "xs \<noteq> []" "x \<in> set xs"
  shows "hd xs \<le> x \<and> x \<le> last (xs :: real list)"
  using sorted_Min_Max[OF assms(1,2)] assms by (metis List.finite_set Max_ge Min_le)

text \<open>
  Without the floor of line 13 a row of zero weights is divided by its sum 0, and
  the pdf is \<open>nan\<close>:
\<close>

lemma unfloored_zero_weights_are_nan:
  "those (map (\<lambda>w. float_div w (sum_list [0, 0])) [0, 0]) = None"
  by (simp add: float_div_def)

text \<open>
  Claim C3. For sorted bins, non-negative weights (one fewer than the bins, at least
  one; all of them may be 0) and quantiles in \<open>[0, 1)\<close> (the evenly spaced ones of
  \<open>det = True\<close>, or the draws of \<open>torch.rand\<close>), \<open>sample_pdf\<close> returns, and every sample
  lies between the least and the greatest bin. The samples are finite because of the
  floor: the float division of line 14 has a non-zero divisor, so \<open>pdf_of\<close> gives a row
  of numbers, each in \<open>(0, 1]\<close>; the CDF that \<open>sample_pdf\<close> searches is the cumulative sum of
  that row behind a 0, with every entry in \<open>[0, 1]\<close>; and the divisor of the interpolation
  is at least \<open>10\<^sup>-\<^sup>5\<close> by line 34.
\<close>

theorem sample_pdf_in_range:
  assumes "sorted bins" and "\<forall>w\<in>set weights. 0 \<le> w" and "weights \<noteq> []"
    and "length bins = Suc (length weights)"
    and "det \<longrightarrow> 0 < n_samples"
    and "\<not> det \<longrightarrow> (\<forall>u\<in>set u_rand. 0 \<le> u \<and> u < 1)"
  shows "\<exists>pdf samples. pdf_of weights = Some pdf
           \<and> pdf_cdf weights = 0 # cumsum pdf
           \<and> (\<forall>p\<in>set pdf. 0 < p \<and> p \<le> 1)
           \<and> (\<forall>c\<in>set (pdf_cdf weights). 0 \<le> c \<and> c \<le> 1)
           \<and> sample_pdf bins weights n_samples det u_rand = Inr samples
           \<and> (\<forall>s\<in>set samples. Min (set bins) \<le> s \<and> s \<le> Max (set bins))
           \<and> length samples = (if det then n_samples else min n_samples (length u_rand))"
proof -
  let ?cdf = "pdf_cdf weights"
  let ?pdf = "map (\<lambda>w. w / sum_list (map (\<lambda>w. w + 1 / 100000) weights))
                (map (\<lambda>w. w + 1 / 100000) weights)"
  let ?u = "if det
            then linspace (0 + (1 / 2) / real n_samples) (1 - (1 / 2) / real n_samples) n_samples
            else take n_samples u_rand"
  note p = pdf_cdf_props[OF assms(3,2)]
  have fin: "pdf_of weights = Some ?pdf" by (rule pdf_of_finite[OF assms(3,2)])
  have cdf: "?cdf = 0 # cumsum ?pdf" by (rule pdf_cdf_of_pdf[OF assms(3)])
  have pr: "\<forall>p\<in>set ?pdf. 0 < p \<and> p \<le> 1" by (rule pdf_entries_range[OF assms(3,2)])
  have cne: "?cdf \<noteq> []" using p(1) by auto
  have "hd ?cdf = 0" using p(3) cne by (simp add: hd_conv_nth)
  then have cr: "\<forall>c\<in>set ?cdf. 0 \<le> c \<and> c \<le> 1"
    using sorted_between[OF p(2) cne] p(4) by auto
  have bne: "bins \<noteq> []" using assms(4) by auto
  have ex: "expand_to (length ?cdf) bins = Inr bins" by (simp add: expand_to_def p(1) assms(4))
  have ur: "\<forall>u\<in>set ?u. 0 \<le> u \<and> u < 1"
  proof (cases det)
    case True
    with assms(5) show ?thesis using linspace_quantiles_range[of n_samples] by auto
  next
    case False
    with assms(6) show ?thesis by (auto dest: in_set_takeD)
  qed
  have "\<forall>u\<in>set ?u. \<exists>s. sample_at bins ?cdf u = Inr s \<and> (hd bins \<le> s \<and> s \<le> last bins)"
    using sample_at_in_range[OF assms(3,2) _ _ assms(1,4)] ur by blast
  from sequence_err_all[OF this] obtain samples where
    s: "sequence_err (map (sample_at bins ?cdf) ?u) = Inr samples"
    and len: "length samples = length ?u"
    and rng: "\<forall>s\<in>set samples. hd bins \<le> s \<and> s \<le> last bins" by blast
  have nz: "\<not> (det \<and> n_samples = 0)" using assms(5) by auto
  have run: "sample_pdf bins weights n_samples det u_rand = Inr samples"
    using nz s ex by (simp add: sample_pdf_def Let_def)
  have "length ?u = (if det then n_samples else min n_samples (length u_rand))"
    by (auto simp: linspace_def)
  with len have l: "length samples = (if det then n_samples else min n_samples (length u_rand))"
    by simp
  from rng have "\<forall>s\<in>set samples. Min (set bins) \<le> s \<and> s \<le> Max (set bins)"
    by (simp add: sorted_Min_Max[OF assms(1) bne])
  with run l fin cdf pr cr show ?thesis by blast
qed


lemma pdf_cdf_zero2: "pdf_cdf [0, 0] = [0, 1 / 2, 1]"
  by (simp add: pdf_cdf_def cumsum_def Let_def)

lemma pdf_of_zero2: "pdf_of [0, 0] = Some [1 / 2, 1 / 2]"
  by (simp add: pdf_of_def float_div_def Let_def)

theorem sample_pdf_in_range_witness:
  "pdf_of [0, 0] = Some [1 / 2, 1 / 2]
   \<and> sample_pdf [0, 1, 2] [0, 0] 2 True [] = Inr [1 / 2, 3 / 2]
   \<and> (\<exists>pdf samples. pdf_of [0, 0] = Some pdf
         \<and> pdf_cdf [0, 0] = 0 # cumsum pdf
         \<and> list_all (\<lambda>p. 0 < p \<and> p \<le> 1) pdf
         \<and> sample_pdf [0, 1, 2] [0, 0] 2 True [] = Inr samples
         \<and> list_all (\<lambda>s. 0 \<le> s \<and> s \<le> 2) samples \<and> length samples = 2)"
proof -
  have e: "sample_pdf [0, 1, 2] [0, 0] 2 True [] = Inr [1 / 2, 3 / 2]"
    by (simp add: sample_pdf_def pdf_cdf_zero2 linspace_def expand_to_def sample_at_def
          bracket_def searchsorted_right_def gather_def Let_def upt_rec)
  have "sorted [0, 1, 2 :: real]" by simp
  from sample_pdf_in_range[OF this, of "[0, 0]" True 2 "[]"]
  have "\<exists>pdf samples. pdf_of [0, 0] = Some pdf
          \<and> pdf_cdf [0, 0] = 0 # cumsum pdf
          \<and> list_all (\<lambda>p. 0 < p \<and> p \<le> 1) pdf
          \<and> sample_pdf [0, 1, 2] [0, 0] 2 True [] = Inr samples
          \<and> list_all (\<lambda>s. 0 \<le> s \<and> s \<le> 2) samples \<and> length samples = 2"
    by (auto simp: list_all_iff)
  with e pdf_of_zero2 show ?thesis by blast
qed

text \<open>
  Claim C4, as the code has it. When the CDF span of the interval around the quantile
  is below \<open>10\<^sup>-\<^sup>5\<close>, the divisor is 1 and the sample is
  \<open>bins[below] + (u - cdf[below]) * (bins[above] - bins[below])\<close>: not the lower bin edge
  itself, but a point at most \<open>10\<^sup>-\<^sup>5\<close> of the interval's width above it.
\<close>

theorem degenerate_interval_sample:
  assumes "sorted bins" and "\<forall>w\<in>set weights. 0 \<le> w" and "weights \<noteq> []"
    and "length bins = Suc (length weights)" and "0 \<le> u" and "u < 1"
    and "bracket (pdf_cdf weights) u = (ibelow, iabove)"
    and "pdf_cdf weights ! nat iabove - pdf_cdf weights ! nat ibelow < 1 / 100000"
  shows "sample_at bins (pdf_cdf weights) u =
           Inr (bins ! nat ibelow +
                (u - pdf_cdf weights ! nat ibelow) / 1 * (bins ! nat iabove - bins ! nat ibelow))
         \<and> bins ! nat ibelow \<le>
             bins ! nat ibelow +
               (u - pdf_cdf weights ! nat ibelow) / 1 * (bins ! nat iabove - bins ! nat ibelow)
         \<and> bins ! nat ibelow +
               (u - pdf_cdf weights ! nat ibelow) / 1 * (bins ! nat iabove - bins ! nat ibelow)
             \<le> bins ! nat ibelow + 1 / 100000 * (bins ! nat iabove - bins ! nat ibelow)"
proof -
  let ?cdf = "pdf_cdf weights"
  note p = pdf_cdf_props[OF assms(3,2)]
  from bracket_of_quantile[OF assms(3,2,5,6)] assms(7) obtain k where k: "1 \<le> k" "k \<le> length weights"
    and br: "bracket ?cdf u = (int k - 1, int k)"
    and ib: "ibelow = int k - 1" "iabove = int k"
    and lo: "?cdf ! (k - 1) \<le> u" and hi: "u < ?cdf ! k" by auto
  have nb: "nat ibelow = k - 1" "nat iabove = k" using ib k(1) by simp_all
  have kc: "k < length ?cdf" using k p(1) by simp
  have d: "?cdf ! k - ?cdf ! (k - 1) < 1 / 100000" using assms(8) unfolding nb .
  have val: "sample_at bins ?cdf u =
      Inr (bins ! (k - 1) + (u - ?cdf ! (k - 1)) / 1 * (bins ! k - bins ! (k - 1)))"
    using sample_at_value[OF k(1) kc _ br, of bins] d by (simp add: assms(4) p(1))
  have kb: "k < length bins" using k assms(4) by simp
  have b: "bins ! (k - 1) \<le> bins ! k" using assms(1) kb by (intro sorted_nth_mono) auto
  define t where "t = u - ?cdf ! (k - 1)"
  define w where "w = bins ! k - bins ! (k - 1)"
  have t: "0 \<le> t" "t \<le> 1 / 100000" using lo hi d by (simp_all add: t_def)
  have w: "0 \<le> w" using b by (simp add: w_def)
  have "0 \<le> t * w" by (rule mult_nonneg_nonneg[OF t(1) w])
  moreover have "t * w \<le> 1 / 100000 * w" by (rule mult_right_mono[OF t(2) w])
  ultimately show ?thesis using val unfolding nb t_def w_def by simp
qed

lemma pdf_cdf_01: "pdf_cdf [0, 1] = [0, 1 / 100002, 1]"
  by (simp add: pdf_cdf_def cumsum_def Let_def)

theorem degenerate_interval_sample_witness:
  "sample_at [0, 1, 2] (pdf_cdf [0, 1]) (1 / 262144) = Inr (1 / 262144)
   \<and> (0::real) \<le> 1 / 262144 \<and> (1 / 262144 :: real) \<le> 1 / 100000"
proof -
  have s: "sorted [0, 1, 2 :: real]" by simp
  have b: "bracket (pdf_cdf [0, 1]) (1 / 262144) = (0, 1)"
    by (simp add: pdf_cdf_01 bracket_def searchsorted_right_def)
  from degenerate_interval_sample[OF s, of "[0, 1]" "1 / 262144" 0 1] b
  show ?thesis by (simp add: pdf_cdf_01)
qed

text \<open>
  Claim C4, as it is stated, fails: with weights \<open>[0, 1]\<close> the first interval of the CDF
  spans \<open>1/100002\<close>, and the quantile \<open>2\<^sup>-\<^sup>1\<^sup>8\<close> inside it gives the sample \<open>2\<^sup>-\<^sup>1\<^sup>8\<close>, above
  the lower bin edge 0.
\<close>

theorem degenerate_interval_sample_above_lower_edge:
  "bracket (pdf_cdf [0, 1]) (1 / 262144) = (0, 1)
   \<and> pdf_cdf [0, 1] ! 1 - pdf_cdf [0, 1] ! 0 < 1 / 100000
   \<and> sample_pdf [0, 1, 2] [0, 1] 1 False [1 / 262144] = Inr [1 / 262144]
   \<and> [0, 1, 2 :: real] ! 0 \<noteq> 1 / 262144"
  by (simp add: sample_pdf_def pdf_cdf_01 expand_to_def sample_at_def bracket_def
        searchsorted_right_def gather_def Let_def)

section \<open>The merge of the uniform and the resampled points\<close>

lemma zip_upt_pairs:
  "set (zip z [0..<length z]) = {(z ! i, i) | i. i < length z}"
  by (auto simp: set_zip)

lemma torch_sort_props:
  assumes "torch_sort z = (z', z_index)"
  shows "sorted z'" "length z_index = length z" "distinct z_index"
    "set z_index = {0..<length z}" "z' = map (\<lambda>i. z ! i) z_index"
proof -
  let ?ps = "sort_key fst (zip z [0..<length z])"
  have z': "z' = map fst ?ps" and zi: "z_index = map snd ?ps"
    using assms by (simp_all add: torch_sort_def Let_def)
  have set_ps: "set ?ps = {(z ! i, i) | i. i < length z}" by (simp add: zip_upt_pairs)
  show "sorted z'" unfolding z' by (rule sorted_sort_key)
  show "length z_index = length z" unfolding zi by simp
  have d: "distinct ?ps" by (simp add: distinct_zipI2)
  have "inj_on snd (set ?ps)" unfolding set_ps by (auto simp: inj_on_def)
  with d show "distinct z_index" unfolding zi by (simp add: distinct_map)
  show "set z_index = {0..<length z}" unfolding zi set_map set_ps by force
  have "\<forall>p\<in>set ?ps. fst p = z ! snd p" unfolding set_ps by auto
  then have "map fst ?ps = map (\<lambda>p. z ! snd p) ?ps" by (intro map_cong) auto
  then show "z' = map (\<lambda>i. z ! i) z_index" unfolding z' zi by (simp add: comp_def)
qed

lemma sequence_err_Inr: "sequence_err (map (\<lambda>x. Inr (f x)) xs) = Inr (map f xs)"
  by (induction xs) auto

lemma gather_as_perm:
  assumes "length idx = length xs" "\<forall>i\<in>set idx. i < length xs"
  shows "gather_as xs idx = Inr (map (\<lambda>i. xs ! i) idx)"
proof -
  have e: "map (\<lambda>i. gather xs (int i)) idx = map (\<lambda>i. Inr (xs ! i)) idx"
    using assms(2) by (intro map_cong) (auto simp: gather_def)
  show ?thesis using assms(1) by (simp add: gather_as_def expand_to_def e sequence_err_Inr)
qed

lemma gather_dict_perm:
  assumes "length z_index = n" "\<forall>i\<in>set z_index. i < n"
    and "\<forall>(k, v)\<in>set outputs. \<exists>new_v. map_of new_outputs k = Some new_v \<and> length (v @ new_v) = n"
  shows "gather_dict outputs new_outputs z_index acc =
           Inr (acc @ map (\<lambda>(k, v). (k, map (\<lambda>i. (v @ the (map_of new_outputs k)) ! i) z_index))
                        outputs)"
  using assms(3)
proof (induction outputs arbitrary: acc)
  case Nil
  then show ?case by simp
next
  case (Cons kv rest)
  obtain k v where kv: "kv = (k, v)" by (cases kv)
  from Cons.prems kv obtain new_v where nv: "map_of new_outputs k = Some new_v"
    and len: "length (v @ new_v) = n" by auto
  have g: "gather_as (v @ new_v) z_index = Inr (map (\<lambda>i. (v @ new_v) ! i) z_index)"
    using assms(1,2) len by (intro gather_as_perm) auto
  have rest: "\<forall>(k, v)\<in>set rest. \<exists>new_v. map_of new_outputs k = Some new_v \<and> length (v @ new_v) = n"
    using Cons.prems by simp
  show ?case unfolding kv using nv g Cons.IH[OF rest] by simp
qed

text \<open>
  Claim C7. When the rows of one ray have matching sizes (a position and an entry of
  every density output for each of the \<open>T\<close> uniform and the \<open>t\<close> resampled distances, and every
  key of \<open>density_outputs\<close> present in \<open>new_density_outputs\<close>), the merge of lines 234 to 242
  returns, the merged distances are sorted, and there is one index row \<open>z_index\<close>, a
  permutation of \<open>0, \<dots>, T + t - 1\<close>, such that slot \<open>k\<close> of the merged distances, of the merged
  positions and of every merged density output holds entry \<open>z_index[k]\<close> of the
  concatenated input row: the attributes at slot \<open>k\<close> are those of the input sample whose
  distance is at slot \<open>k\<close>. This holds whichever of two equal distances the sort puts first.
  The colours are computed after the merge (line 256), sample by sample from the merged
  positions and density outputs.
\<close>

theorem merge_samples_keeps_association:
  assumes "length xyzs = length z_vals" and "length new_xyzs = length new_z_vals"
    and "\<forall>(k, v)\<in>set density_outputs. \<exists>new_v.
           map_of new_density_outputs k = Some new_v
           \<and> length v = length z_vals \<and> length new_v = length new_z_vals"
  shows "\<exists>z_index.
           merge_samples z_vals new_z_vals xyzs new_xyzs density_outputs new_density_outputs =
             Inr (map (\<lambda>i. (z_vals @ new_z_vals) ! i) z_index,
                  z_index,
                  map (\<lambda>i. (xyzs @ new_xyzs) ! i) z_index,
                  map (\<lambda>(k, v). (k, map (\<lambda>i. (v @ the (map_of new_density_outputs k)) ! i) z_index))
                    density_outputs)
           \<and> sorted (map (\<lambda>i. (z_vals @ new_z_vals) ! i) z_index)
           \<and> length z_index = length z_vals + length new_z_vals
           \<and> distinct z_index
           \<and> set z_index = {0..<length z_vals + length new_z_vals}"
proof -
  let ?z = "z_vals @ new_z_vals"
  obtain z' z_index where ts: "torch_sort ?z = (z', z_index)" by (cases "torch_sort ?z")
  note p = torch_sort_props[OF ts]
  have n: "length z_index = length ?z" by (rule p(2))
  have r: "\<forall>i\<in>set z_index. i < length ?z" using p(4) by simp
  have gx: "gather_as (xyzs @ new_xyzs) z_index = Inr (map (\<lambda>i. (xyzs @ new_xyzs) ! i) z_index)"
    using n r assms(1,2) by (intro gather_as_perm) auto
  have "\<forall>(k, v)\<in>set density_outputs. \<exists>new_v.
          map_of new_density_outputs k = Some new_v \<and> length (v @ new_v) = length ?z"
    using assms(3) by fastforce
  from gather_dict_perm[OF n r this, of "[]"]
  have gd: "gather_dict density_outputs new_density_outputs z_index [] =
      Inr (map (\<lambda>(k, v). (k, map (\<lambda>i. (v @ the (map_of new_density_outputs k)) ! i) z_index))
             density_outputs)" by simp
  have "merge_samples z_vals new_z_vals xyzs new_xyzs density_outputs new_density_outputs =
      Inr (map (\<lambda>i. ?z ! i) z_index, z_index, map (\<lambda>i. (xyzs @ new_xyzs) ! i) z_index,
           map (\<lambda>(k, v). (k, map (\<lambda>i. (v @ the (map_of new_density_outputs k)) ! i) z_index))
             density_outputs)"
    using ts gx gd p(5) by (simp add: merge_samples_def)
  moreover have "sorted (map (\<lambda>i. ?z ! i) z_index)" using p(1,5) by simp
  ultimately show ?thesis using p(2,3,4) by (intro exI[of _ z_index]) simp
qed

theorem merge_samples_keeps_association_witness:
  "merge_samples [0, 2] [1] [''a'', ''c''] [''b''] [(''sigma'', [10, 30 :: nat])] [(''sigma'', [20])]
     = Inr ([0, 1, 2], [0, 2, 1], [''a'', ''b'', ''c''], [(''sigma'', [10, 20, 30])])
   \<and> (\<exists>z_index.
         merge_samples [0, 2] [1] [''a'', ''c''] [''b''] [(''sigma'', [10, 30 :: nat])]
             [(''sigma'', [20])] =
           Inr (map (\<lambda>i. [0, 2, 1] ! i) z_index,
                z_index,
                map (\<lambda>i. [''a'', ''c'', ''b''] ! i) z_index,
                [(''sigma'', map (\<lambda>i. [10, 30, 20] ! i) z_index)])
         \<and> sorted (map (\<lambda>i. [0, 2, 1 :: real] ! i) z_index)
         \<and> length z_index = 3 \<and> distinct z_index \<and> set z_index = {0..<3})"
proof -
  have e: "merge_samples [0, 2] [1] [''a'', ''c''] [''b''] [(''sigma'', [10, 30 :: nat])]
      [(''sigma'', [20])]
     = Inr ([0, 1, 2], [0, 2, 1], [''a'', ''b'', ''c''], [(''sigma'', [10, 20, 30])])"
    by (simp add: merge_samples_def torch_sort_def gather_as_def expand_to_def gather_def
          Let_def upt_rec)
  have "length [''a'', ''c''] = length [0, 2 :: real]" by simp
  from merge_samples_keeps_association[OF this, of "[''b'']" "[1]"
      "[(''sigma'', [10, 30 :: nat])]" "[(''sigma'', [20])]"]
  obtain z_index where z:
    "merge_samples [0, 2] [1] [''a'', ''c''] [''b''] [(''sigma'', [10, 30 :: nat])]
         [(''sigma'', [20])] =
       Inr (map (\<lambda>i. ([0, 2] @ [1]) ! i) z_index,
            z_index,
            map (\<lambda>i. ([''a'', ''c''] @ [''b'']) ! i) z_index,
            map (\<lambda>(k, v). (k, map (\<lambda>i. (v @ the (map_of [(''sigma'', [20])] k)) ! i) z_index))
              [(''sigma'', [10, 30])])"
    "sorted (map (\<lambda>i. ([0, 2] @ [1 :: real]) ! i) z_index)"
    "length z_index = length [0, 2 :: real] + length [1 :: real]"
    "distinct z_index"
    "set z_index = {0..<length [0, 2 :: real] + length [1 :: real]}"
    by auto
  have "merge_samples [0, 2] [1] [''a'', ''c''] [''b''] [(''sigma'', [10, 30 :: nat])]
             [(''sigma'', [20])] =
           Inr (map (\<lambda>i. [0, 2, 1] ! i) z_index,
                z_index,
                map (\<lambda>i. [''a'', ''c'', ''b''] ! i) z_index,
                [(''sigma'', map (\<lambda>i. [10, 30, 20] ! i) z_index)])"
    using z(1) by simp
  moreover have "sorted (map (\<lambda>i. [0, 2, 1 :: real] ! i) z_index)" using z(2) by simp
  moreover have "length z_index = 3" using z(3) by simp
  moreover have "set z_index = {0..<3}" using z(5) by (simp add: numeral_3_eq_3)
  ultimately have "\<exists>z_index.
         merge_samples [0, 2] [1] [''a'', ''c''] [''b''] [(''sigma'', [10, 30 :: nat])]
             [(''sigma'', [20])] =
           Inr (map (\<lambda>i. [0, 2, 1] ! i) z_index,
                z_index,
                map (\<lambda>i. [''a'', ''c'', ''b''] ! i) z_index,
                [(''sigma'', map (\<lambda>i. [10, 30, 20] ! i) z_index)])
         \<and> sorted (map (\<lambda>i. [0, 2, 1 :: real] ! i) z_index)
         \<and> length z_index = 3 \<and> distinct z_index \<and> set z_index = {0..<3}"
    using z(4) by blast
  with e show ?thesis by blast
qed
section \<open>Staged rendering\<close>








subsection \<open>Two runs of \<open>run_cuda\<close> in the scene\<close>










































end
